theory Spec2Isabelle
  imports Main "HOL-Library.Sublist" "HOL-Library.Product_Lexorder"
begin

section \<open>Strings, values and records\<close>

text \<open>
  A Python \<open>str\<close> is a sequence of Unicode code points, and \<open>len\<close> counts code points.
  It is modelled as a list of code-point numbers; \<open>u\<close> embeds an ASCII literal.
\<close>

type_synonym ustring = "nat list"

definition u :: "string \<Rightarrow> ustring" where
  "u s = map of_char s"

text \<open>
  The value stored under a key of a listing: the dataclass \<open>Row\<close> declares every field a
  \<open>str\<close>, and the upstream JSON may carry \<open>null\<close>; a listing is a dictionary from keys to
  such values. \<open>dict.get\<close> returns \<open>None\<close> for an absent key.
\<close>

datatype pyval = PNone | PStr ustring

type_synonym row = "ustring \<rightharpoonup> pyval"

definition get :: "row \<Rightarrow> ustring \<Rightarrow> pyval" where
  "get r k = (case r k of None \<Rightarrow> PNone | Some v \<Rightarrow> v)"

text \<open>
  \<open>v or d\<close> with a string default \<open>d\<close>: \<open>None\<close> and the empty string are falsy,
  so the result is always a string, and \<open>str(v or d)\<close> is that same string.
\<close>

fun truthy :: "pyval \<Rightarrow> bool" where
  "truthy PNone = False"
| "truthy (PStr s) = (s \<noteq> [])"

fun py_or :: "pyval \<Rightarrow> ustring \<Rightarrow> ustring" where
  "py_or PNone d = d"
| "py_or (PStr s) d = (if truthy (PStr s) then s else d)"

text \<open>\<open>n in s\<close> on two strings: \<open>n\<close> occurs in \<open>s\<close> as a contiguous run.\<close>

fun py_in :: "ustring \<Rightarrow> ustring \<Rightarrow> bool" where
  "py_in n [] = (n = [])"
| "py_in n (c # s) = (prefix n (c # s) \<or> py_in n s)"

text \<open>
  An element of a JSON array is an object (a \<open>dict\<close>) or something else;
  \<open>[d for d in data if isinstance(d, dict)]\<close> keeps the objects.
\<close>

datatype item = Dict row | NotDict

fun dicts :: "item list \<Rightarrow> row list" where
  "dicts [] = []"
| "dicts (Dict r # xs) = r # dicts xs"
| "dicts (NotDict # xs) = dicts xs"

text \<open>\<open>str(n)\<close> for an integer: its decimal digits, with a minus sign when negative.\<close>

fun digits_of :: "nat \<Rightarrow> ustring" where
  "digits_of n = (if n < 10 then [48 + n] else digits_of (n div 10) @ [48 + n mod 10])"

declare digits_of.simps [simp del]

definition str_int :: "int \<Rightarrow> ustring" where
  "str_int i = (if i < 0 then 45 # digits_of (nat (- i)) else digits_of (nat i))"

section \<open>The filter pipeline (fetch\_reservations.py)\<close>

definition contains_any :: "ustring \<Rightarrow> ustring list \<Rightarrow> bool" where
  "contains_any haystack needles =
     (let s = (if haystack \<noteq> [] then haystack else [])
      in list_ex (\<lambda>n. py_in n s) needles)"

text \<open>
  The constants of \<open>filter_rows\<close>, as code points: the district names Gangnam-gu
  (U+AC15 U+B0A8 U+AD6C), Seocho-gu (U+C11C U+CD08 U+AD6C) and Songpa-gu (U+C1A1 U+D30C
  U+AD6C); the status strings "receiving" (U+C811 U+C218 U+C911) and "guiding" (U+C548
  U+B0B4 U+C911); the needles "infant" (U+C720 U+C544), "no restriction" (U+C81C U+D55C
  U+C5C6 U+C74C) and "family" (U+AC00 U+C871).
\<close>

definition gangnam :: ustring where "gangnam = [44053, 45224, 44396]"
definition seocho :: ustring where "seocho = [49436, 52488, 44396]"
definition songpa :: ustring where "songpa = [49569, 54028, 44396]"
definition receiving :: ustring where "receiving = [51217, 49688, 51473]"
definition guiding :: ustring where "guiding = [50504, 45236, 51473]"
definition infant :: ustring where "infant = [50976, 50500]"
definition unrestricted :: ustring where "unrestricted = [51228, 54620, 50630, 51020]"
definition family :: ustring where "family = [44032, 51313]"

definition areas :: "ustring set" where
  "areas = {gangnam, seocho, songpa}"

definition statuses :: "ustring set" where
  "statuses = {receiving, guiding}"

definition needles :: "ustring list" where
  "needles = [infant, unrestricted, family]"

text \<open>The loop of \<open>filter_rows\<close>, with the two output lists as accumulators.\<close>

fun filter_loop :: "row list \<Rightarrow> row list \<times> row list \<Rightarrow> row list \<times> row list" where
  "filter_loop [] (v12, v123) = (v12, v123)"
| "filter_loop (r # rows) (v12, v123) =
     (let areanm = py_or (get r (u ''AREANM'')) [];
          svcstat = py_or (get r (u ''SVCSTATNM'')) [];
          usetgt = py_or (get r (u ''USETGTINFO'')) [];
          cond1 = (areanm \<in> areas);
          cond2 = (svcstat \<in> statuses)
      in if cond1 \<and> cond2
         then (if contains_any usetgt needles
               then filter_loop rows (v12 @ [r], v123 @ [r])
               else filter_loop rows (v12 @ [r], v123))
         else filter_loop rows (v12, v123))"

definition filter_rows :: "row list \<Rightarrow> row list \<times> row list" where
  "filter_rows rows = filter_loop rows ([], [])"

section \<open>Timestamps\<close>

text \<open>
  A naive \<open>datetime\<close>: year, month, day, hour, minute, second, microsecond. Python orders
  naive datetimes chronologically, which is the lexicographic order of these tuples.
\<close>

type_synonym datetime = "nat \<times> nat \<times> nat \<times> nat \<times> nat \<times> nat \<times> nat"

definition datetime_max :: datetime where
  "datetime_max = (9999, 12, 31, 23, 59, 59, 999999)"

definition isleap :: "nat \<Rightarrow> bool" where
  "isleap y = (y mod 4 = 0 \<and> (y mod 100 \<noteq> 0 \<or> y mod 400 = 0))"

definition days_in_month :: "nat \<Rightarrow> nat \<Rightarrow> nat" where
  "days_in_month y m =
     (if m = 2 then (if isleap y then 29 else 28)
      else if m \<in> {4, 6, 9, 11} then 30 else 31)"

text \<open>
  The constructor \<open>datetime(y, m, d, H, M, S, f)\<close>: it raises \<open>ValueError\<close> (here \<open>None\<close>)
  for a component out of range.
\<close>

definition datetime_new :: "nat \<Rightarrow> nat \<Rightarrow> nat \<Rightarrow> nat \<Rightarrow> nat \<Rightarrow> nat \<Rightarrow> nat \<Rightarrow> datetime option" where
  "datetime_new y m d H M S f =
     (if 1 \<le> y \<and> y \<le> 9999 \<and> 1 \<le> m \<and> m \<le> 12 \<and> 1 \<le> d \<and> d \<le> days_in_month y m
         \<and> H \<le> 23 \<and> M \<le> 59 \<and> S \<le> 59 \<and> f \<le> 999999
      then Some (y, m, d, H, M, S, f) else None)"

subsection \<open>Whitespace and digits\<close>

text \<open>
  The code points for which \<open>str.isspace\<close> holds; \<open>str.strip()\<close> removes them at both
  ends and the regular expression \<open>\s\<close> matches exactly them.
\<close>

definition is_space :: "nat \<Rightarrow> bool" where
  "is_space c = ((9 \<le> c \<and> c \<le> 13) \<or> (28 \<le> c \<and> c \<le> 32) \<or> c = 133 \<or> c = 160
      \<or> c = 5760 \<or> (8192 \<le> c \<and> c \<le> 8202) \<or> c = 8232 \<or> c = 8233 \<or> c = 8239
      \<or> c = 8287 \<or> c = 12288)"

definition strip :: "ustring \<Rightarrow> ustring" where
  "strip s = rev (dropWhile is_space (rev (dropWhile is_space s)))"

text \<open>
  The regular expression \<open>\d\<close> matches every Unicode decimal digit (category Nd), and
  \<open>int\<close> reads them. Decimal digits come in runs of ten, \<open>0\<close> to \<open>9\<close>; the table lists the
  zero of each run (Unicode 14).
\<close>

definition digit_zeros :: "nat list" where
  "digit_zeros = [48, 1632, 1776, 1984, 2406, 2534, 2662, 2790, 2918, 3046, 3174, 3302,
     3430, 3558, 3664, 3792, 3872, 4160, 4240, 6112, 6160, 6470, 6608, 6784, 6800, 6992,
     7088, 7232, 7248, 42528, 43216, 43264, 43472, 43504, 43600, 44016, 65296, 66720,
     68912, 69734, 69872, 69942, 70096, 70384, 70736, 70864, 71248, 71360, 71472, 71904,
     72016, 72784, 73040, 73120, 92768, 92864, 93008, 120782, 120792, 120802, 120812,
     120822, 123200, 123632, 125264, 130032]"

definition digit_val :: "nat \<Rightarrow> nat option" where
  "digit_val c =
     (case find (\<lambda>z. z \<le> c \<and> c < z + 10) digit_zeros of
        None \<Rightarrow> None
      | Some z \<Rightarrow> Some (c - z))"

subsection \<open>strptime for the directives in use\<close>

text \<open>
  \<open>datetime.strptime\<close> turns the format into a regular expression, matches it at the start
  of the text with the usual backtracking, and then requires that the match reached the end
  of the text. Each directive is modelled as the list of its matches in the order in which
  the backtracking matcher tries them: the value read and the text that is left.
\<close>

text \<open>One ASCII digit in the range \<open>[lo-hi]\<close>.\<close>

fun asc :: "nat \<Rightarrow> nat \<Rightarrow> ustring \<Rightarrow> (nat \<times> ustring) list" where
  "asc lo hi [] = []"
| "asc lo hi (c # s) = (if 48 + lo \<le> c \<and> c \<le> 48 + hi then [(c - 48, s)] else [])"

text \<open>\<open>\d\<close>: one decimal digit.\<close>

fun dig :: "ustring \<Rightarrow> (nat \<times> ustring) list" where
  "dig [] = []"
| "dig (c # s) = (case digit_val c of None \<Rightarrow> [] | Some v \<Rightarrow> [(v, s)])"

text \<open>Two digit patterns in sequence, read as a two-digit number.\<close>

definition two :: "(ustring \<Rightarrow> (nat \<times> ustring) list) \<Rightarrow> (ustring \<Rightarrow> (nat \<times> ustring) list)
    \<Rightarrow> ustring \<Rightarrow> (nat \<times> ustring) list" where
  "two p q s = concat (map (\<lambda>(a, s1). map (\<lambda>(b, s2). (10 * a + b, s2)) (q s1)) (p s))"

text \<open>\<open>%Y\<close> is \<open>\d\d\d\d\<close>.\<close>

definition re_Y :: "ustring \<Rightarrow> (nat \<times> ustring) list" where
  "re_Y s = concat (map (\<lambda>(a, s1). map (\<lambda>(b, s2). (100 * a + b, s2)) (two dig dig s1)) (two dig dig s))"

text \<open>\<open>%m\<close> is \<open>1[0-2]|0[1-9]|[1-9]\<close>.\<close>

definition re_m :: "ustring \<Rightarrow> (nat \<times> ustring) list" where
  "re_m s = two (asc 1 1) (asc 0 2) s @ two (asc 0 0) (asc 1 9) s @ asc 1 9 s"

text \<open>\<open>%d\<close> is \<open>3[0-1]|[1-2]\d|0[1-9]|[1-9]| [1-9]\<close>.\<close>

definition re_d :: "ustring \<Rightarrow> (nat \<times> ustring) list" where
  "re_d s = two (asc 3 3) (asc 0 1) s @ two (asc 1 2) dig s @ two (asc 0 0) (asc 1 9) s
      @ asc 1 9 s @ (case s of [] \<Rightarrow> [] | c # s1 \<Rightarrow> if c = 32 then asc 1 9 s1 else [])"

text \<open>\<open>%H\<close> is \<open>2[0-3]|[0-1]\d|\d\<close>.\<close>

definition re_H :: "ustring \<Rightarrow> (nat \<times> ustring) list" where
  "re_H s = two (asc 2 2) (asc 0 3) s @ two (asc 0 1) dig s @ dig s"

text \<open>\<open>%M\<close> is \<open>[0-5]\d|\d\<close>.\<close>

definition re_M :: "ustring \<Rightarrow> (nat \<times> ustring) list" where
  "re_M s = two (asc 0 5) dig s @ dig s"

text \<open>\<open>%S\<close> is \<open>6[0-1]|[0-5]\d|\d\<close>.\<close>

definition re_S :: "ustring \<Rightarrow> (nat \<times> ustring) list" where
  "re_S s = two (asc 6 6) (asc 0 1) s @ two (asc 0 5) dig s @ dig s"

text \<open>
  \<open>%f\<close> is \<open>[0-9]{1,6}\<close>, greedy: the longest run first. The digits read are padded with
  zeros on the right to six digits, so the value is in microseconds.
\<close>

definition is_ascii_digit :: "nat \<Rightarrow> bool" where
  "is_ascii_digit c = (48 \<le> c \<and> c \<le> 57)"

definition digits_value :: "ustring \<Rightarrow> nat" where
  "digits_value ds = foldl (\<lambda>acc c. 10 * acc + (c - 48)) 0 ds"

definition re_f :: "ustring \<Rightarrow> (nat \<times> ustring) list" where
  "re_f s =
     (let n = length (takeWhile is_ascii_digit (take 6 s))
      in map (\<lambda>k. (digits_value (take k s) * 10 ^ (6 - k), drop k s)) (rev [1..<Suc n]))"

text \<open>\<open>\s+\<close>, greedy: a white space in the format stands for one or more white-space characters.\<close>

definition re_ws :: "ustring \<Rightarrow> ustring list" where
  "re_ws s = (let n = length (takeWhile is_space s) in map (\<lambda>k. drop k s) (rev [1..<Suc n]))"

datatype directive = DY | Dm | Dd | DH | DM | DS | Df | Ws | Lit nat

record fields =
  year :: nat
  month :: nat
  day :: nat
  hour :: nat
  minute :: nat
  second :: nat
  fraction :: nat

fun step :: "directive \<Rightarrow> fields \<times> ustring \<Rightarrow> (fields \<times> ustring) list" where
  "step DY (g, s) = map (\<lambda>(v, r). (g\<lparr>year := v\<rparr>, r)) (re_Y s)"
| "step Dm (g, s) = map (\<lambda>(v, r). (g\<lparr>month := v\<rparr>, r)) (re_m s)"
| "step Dd (g, s) = map (\<lambda>(v, r). (g\<lparr>day := v\<rparr>, r)) (re_d s)"
| "step DH (g, s) = map (\<lambda>(v, r). (g\<lparr>hour := v\<rparr>, r)) (re_H s)"
| "step DM (g, s) = map (\<lambda>(v, r). (g\<lparr>minute := v\<rparr>, r)) (re_M s)"
| "step DS (g, s) = map (\<lambda>(v, r). (g\<lparr>second := v\<rparr>, r)) (re_S s)"
| "step Df (g, s) = map (\<lambda>(v, r). (g\<lparr>fraction := v\<rparr>, r)) (re_f s)"
| "step Ws (g, s) = map (\<lambda>r. (g, r)) (re_ws s)"
| "step (Lit c) (g, s) = (case s of [] \<Rightarrow> [] | a # r \<Rightarrow> if a = c then [(g, r)] else [])"

text \<open>All ways to match a whole format at the start of the text, the matcher's first choice first.\<close>

fun matches :: "directive list \<Rightarrow> fields \<times> ustring \<Rightarrow> (fields \<times> ustring) list" where
  "matches [] st = [st]"
| "matches (d # ds) st = concat (map (matches ds) (step d st))"

definition defaults :: fields where
  "defaults = \<lparr>year = 1900, month = 1, day = 1, hour = 0, minute = 0, second = 0, fraction = 0\<rparr>"

text \<open>
  \<open>None\<close> stands for the \<open>ValueError\<close> that \<open>strptime\<close> raises: no match, text left over
  after the match, or a date or time out of range.
\<close>

definition strptime :: "ustring \<Rightarrow> directive list \<Rightarrow> datetime option" where
  "strptime s fmt =
     (case matches fmt (defaults, s) of
        [] \<Rightarrow> None
      | (g, rest) # _ \<Rightarrow>
          if rest \<noteq> [] then None
          else datetime_new (year g) (month g) (day g) (hour g) (minute g) (second g) (fraction g))"

subsection \<open>parse\_dt and the sort key\<close>

text \<open>
  The five formats of \<open>parse_dt\<close>, in its order:
  \<^verbatim>\<open>%Y-%m-%d %H:%M:%S.%f\<close>, \<^verbatim>\<open>%Y-%m-%d %H:%M:%S\<close>, \<^verbatim>\<open>%Y-%m-%d\<close>, \<^verbatim>\<open>%Y%m%d%H%M%S\<close>, \<^verbatim>\<open>%Y%m%d\<close>
  (45 is the hyphen, 58 the colon, 46 the full stop).
\<close>

definition fmts :: "directive list list" where
  "fmts =
     [[DY, Lit 45, Dm, Lit 45, Dd, Ws, DH, Lit 58, DM, Lit 58, DS, Lit 46, Df],
      [DY, Lit 45, Dm, Lit 45, Dd, Ws, DH, Lit 58, DM, Lit 58, DS],
      [DY, Lit 45, Dm, Lit 45, Dd],
      [DY, Dm, Dd, DH, DM, DS],
      [DY, Dm, Dd]]"

text \<open>The loop over the formats: the first format that \<open>strptime\<close> accepts returns.\<close>

fun try_formats :: "ustring \<Rightarrow> directive list list \<Rightarrow> datetime option" where
  "try_formats s [] = None"
| "try_formats s (fmt # rest) =
     (case strptime s fmt of Some dt \<Rightarrow> Some dt | None \<Rightarrow> try_formats s rest)"

definition parse_dt :: "ustring \<Rightarrow> datetime option" where
  "parse_dt s = (if s = [] then None else try_formats (strip s) fmts)"

text \<open>
  \<open>sort_key\<close>: a \<open>datetime\<close> is always truthy, so \<open>a or b\<close> is \<open>a\<close> unless \<open>a\<close> is \<open>None\<close>.
  Both files define it; on string fields the two definitions coincide.
\<close>

definition sort_key_row :: "row \<Rightarrow> datetime" where
  "sort_key_row r =
     (let dt = (case parse_dt (py_or (get r (u ''RCPTBGNDT'')) []) of
                  Some a \<Rightarrow> Some a
                | None \<Rightarrow> parse_dt (py_or (get r (u ''SVCOPNBGNDT'')) []))
      in case dt of Some a \<Rightarrow> a | None \<Rightarrow> datetime_max)"

text \<open>
  \<open>sorted(xs, key=k)\<close> is a stable ascending sort, and a stable sort has one result only:
  the library's stable insertion sort computes it.
\<close>

definition sorted_by :: "('a \<Rightarrow> datetime) \<Rightarrow> 'a list \<Rightarrow> 'a list" where
  "sorted_by k xs = sort_key k xs"

section \<open>The digest composer (compose\_email.py)\<close>

text \<open>\<open>sep.join(parts)\<close>.\<close>

fun join :: "ustring \<Rightarrow> ustring list \<Rightarrow> ustring" where
  "join sep [] = []"
| "join sep [x] = x"
| "join sep (x # y # ys) = x @ sep @ join sep (y # ys)"

text \<open>The ellipsis marker is the single character U+2026.\<close>

definition ellipsis :: ustring where
  "ellipsis = [8230]"

definition trunc :: "ustring \<Rightarrow> int \<Rightarrow> ustring" where
  "trunc s n =
     (let s = (if s \<noteq> [] then s else u ''-'')
      in if int (length s) \<le> n then s else take (nat (max 0 (n - 1))) s @ ellipsis)"

definition line_for :: "row \<Rightarrow> ustring" where
  "line_for r =
     (let areanm = trunc (py_or (get r (u ''AREANM'')) (u ''-'')) 10;
          svcnm = trunc (py_or (get r (u ''SVCNM'')) (u ''-'')) 40;
          svcstat = trunc (py_or (get r (u ''SVCSTATNM'')) (u ''-'')) 10;
          rcpbgn = trunc (py_or (get r (u ''RCPTBGNDT'')) (u ''-'')) 19;
          rcpend = trunc (py_or (get r (u ''RCPTENDDT'')) (u ''-'')) 19;
          svcid = py_or (get r (u ''SVCID'')) (u ''-'');
          link = (if svcid \<noteq> u ''-''
                  then u ''https://yeyak.seoul.go.kr/web/reservation/selectReservView.do?rsv_svc_id='' @ svcid
                  else u ''-'')
      in u ''- ['' @ areanm @ u ''] '' @ svcnm @ u '' ('' @ svcstat @ u '') | ''
         @ [51217, 49688] @ u '': '' @ rcpbgn @ u '' ~ '' @ rcpend @ u '' | ''
         @ [47553, 53356] @ u '': '' @ link)"

text \<open>
  The count line, an f-string around \<open>len(rows)\<close> (U+CD1D, a space, the number, U+AC74), and
  the sentence for an empty section.
\<close>

definition count_line :: "nat \<Rightarrow> ustring" where
  "count_line n = [52509, 32] @ str_int (int n) @ [44148]"

definition no_items :: ustring where
  "no_items = [54644, 45817, 32, 51312, 44148, 50640, 32, 47582, 45716, 32, 54637, 47785,
     51060, 32, 50630, 49845, 45768, 45796, 46]"

text \<open>The list \<open>out\<close> of \<open>section\<close> when it returns, and the text joined from it.\<close>

definition section_out :: "ustring \<Rightarrow> row list \<Rightarrow> ustring list" where
  "section_out title rows =
     (let out = [title, [], count_line (length rows), []]
      in if rows = [] then out @ [no_items]
         else (let rows_sorted = take 10 (sorted_by sort_key_row rows)
               in out @ map line_for rows_sorted))"

definition section_text :: "ustring \<Rightarrow> row list \<Rightarrow> ustring" where
  "section_text title rows = join [10] (section_out title rows)"








definition title_v12 :: ustring where
  "title_v12 = u ''[v12] '' @ [51312, 44148] @ u '' (1)&(2)''"



section \<open>The paginated fetch (fetch\_reservations.py)\<close>

definition PAGE_SIZE :: int where
  "PAGE_SIZE = 1000"

definition MAX_RETRIES :: int where
  "MAX_RETRIES = 3"

definition build_url :: "ustring \<Rightarrow> int \<Rightarrow> int \<Rightarrow> ustring" where
  "build_url api_key start stop =
     u ''http://openapi.seoul.go.kr:8088/'' @ api_key
     @ u ''/json/ListPublicReservationEducation/'' @ str_int start @ u ''/'' @ str_int stop @ u ''/''"

text \<open>
  The body that \<open>resp.json()\<close> returns, as far as \<open>extract_payload\<close> looks into it.
  \<open>NoListing\<close>: the body is not an object, or holds no object under the key
  \<open>ListPublicReservationEducation\<close>. \<open>Listing total rows\<close>: it does; \<open>total\<close> is what
  \<open>int(obj.get("list_total_count"))\<close> returns (\<open>None\<close> when it raises), and \<open>rows\<close> is the value
  under \<open>row\<close> when that is a list (\<open>None\<close> otherwise).
\<close>

datatype data = NoListing | Listing "int option" "item list option"

fun extract_payload :: "data \<Rightarrow> int \<times> row list" where
  "extract_payload NoListing = (0, [])"
| "extract_payload (Listing tot rows) =
     (let total_count = (case tot of Some n \<Rightarrow> n | None \<Rightarrow> 0);
          rows_list = (case rows of None \<Rightarrow> [] | Some rs \<Rightarrow> dicts rs)
      in (total_count, rows_list))"

text \<open>
  What one \<open>session.get\<close> does: it raises a connection error, a timeout or some other
  exception, or it returns a response with a status code and a body (\<open>None\<close>: the body does
  not parse as JSON). The network answers the \<open>n\<close>-th request of a run, for the URL asked.
\<close>

datatype response = ConnectionError | Timeout | OtherException | Http int "data option"

type_synonym network = "nat \<Rightarrow> ustring \<Rightarrow> response"

text \<open>
  What a run does to the outside: the URLs requested, the back-off times slept, the lines
  printed to the output and to the error stream, and the files written, each oldest first.
\<close>

datatype caught = ConnectionFailed | TimedOut | ParseFailed

datatype error = ServerError int | HttpError int | FailedAfterRetries "caught option" | Raised

datatype out_line = Discovered int | DiscoveredZero | FetchedPage int int nat | FinalCounts nat nat nat

datatype err_line = MissingKey | InitialFetchFailed error | FetchFailed int int error

datatype content = Json "row list" | Csv "ustring list" "ustring list list"

record world =
  sent :: "ustring list"
  slept :: "nat list"
  printed :: "out_line list"
  errors :: "err_line list"
  files :: "(ustring \<times> content) list"

definition world0 :: world where
  "world0 = \<lparr>sent = [], slept = [], printed = [], errors = [], files = []\<rparr>"

text \<open>
  The loop \<open>for attempt in range(1, MAX_RETRIES + 1)\<close> of \<open>fetch_page\<close>. \<open>Inl\<close> is the
  exception that leaves \<open>fetch_page\<close>: a \<open>RuntimeError\<close>, or an exception of \<open>session.get\<close>
  that no handler catches (\<open>Raised\<close>). Leaving the loop by \<open>break\<close> or by exhaustion raises
  \<open>FailedAfterRetries\<close> with the last exception caught.
\<close>

function fetch_attempts :: "network \<Rightarrow> ustring \<Rightarrow> int \<Rightarrow> nat \<Rightarrow> caught option \<Rightarrow> world
    \<Rightarrow> (error + data) \<times> world" where
  "fetch_attempts net url attempt backoff last_exc w =
     (if attempt > MAX_RETRIES then (Inl (FailedAfterRetries last_exc), w)
      else
        (let resp = net (length (sent w)) url;
             w1 = w\<lparr>sent := sent w @ [url]\<rparr>
         in case resp of
              Http status body \<Rightarrow>
                if 200 \<le> status \<and> status < 300 then
                  (case body of
                     Some d \<Rightarrow> (Inr d, w1)
                   | None \<Rightarrow>
                       if attempt = MAX_RETRIES then (Inl (FailedAfterRetries (Some ParseFailed)), w1)
                       else fetch_attempts net url (attempt + 1) (backoff * 2) (Some ParseFailed)
                              (w1\<lparr>slept := slept w1 @ [backoff]\<rparr>))
                else if 500 \<le> status \<and> status < 600 then
                  (if attempt = MAX_RETRIES then (Inl (ServerError status), w1)
                   else fetch_attempts net url (attempt + 1) (backoff * 2) last_exc
                          (w1\<lparr>slept := slept w1 @ [backoff]\<rparr>))
                else (Inl (HttpError status), w1)
            | ConnectionError \<Rightarrow>
                if attempt = MAX_RETRIES then (Inl (FailedAfterRetries (Some ConnectionFailed)), w1)
                else fetch_attempts net url (attempt + 1) (backoff * 2) (Some ConnectionFailed)
                       (w1\<lparr>slept := slept w1 @ [backoff]\<rparr>)
            | Timeout \<Rightarrow>
                if attempt = MAX_RETRIES then (Inl (FailedAfterRetries (Some TimedOut)), w1)
                else fetch_attempts net url (attempt + 1) (backoff * 2) (Some TimedOut)
                       (w1\<lparr>slept := slept w1 @ [backoff]\<rparr>)
            | OtherException \<Rightarrow> (Inl Raised, w1)))"
  by pat_completeness auto
termination
  by (relation "measure (\<lambda>(net, url, attempt, backoff, last_exc, w). nat (MAX_RETRIES + 1 - attempt))") auto

declare fetch_attempts.simps [simp del]

definition fetch_page :: "network \<Rightarrow> ustring \<Rightarrow> world \<Rightarrow> (error + data) \<times> world" where
  "fetch_page net url w = fetch_attempts net url 1 1 None w"

text \<open>
  The loop \<open>for p in range(2, total_pages + 1)\<close> of \<open>main\<close>, from page \<open>p\<close> on.
  \<open>Inl code\<close> is \<open>return code\<close> from inside the loop.
\<close>

function pages_for :: "network \<Rightarrow> ustring \<Rightarrow> int \<Rightarrow> int \<Rightarrow> row list \<Rightarrow> world
    \<Rightarrow> (int + row list) \<times> world" where
  "pages_for net api_key p total_pages all_rows w =
     (if p \<ge> total_pages + 1 then (Inr all_rows, w)
      else
        (let start = (p - 1) * PAGE_SIZE + 1;
             stop = p * PAGE_SIZE;
             url = build_url api_key start stop
         in case fetch_page net url w of
              (Inl e, w1) \<Rightarrow> (Inl 3, w1\<lparr>errors := errors w1 @ [FetchFailed start stop e]\<rparr>)
            | (Inr d, w1) \<Rightarrow>
                (let rows = snd (extract_payload d);
                     w2 = w1\<lparr>printed := printed w1 @ [FetchedPage start stop (length rows)]\<rparr>
                 in if rows = [] then (Inr all_rows, w2)
                    else pages_for net api_key (p + 1) total_pages (all_rows @ rows) w2)))"
  by pat_completeness auto
termination
  by (relation "measure (\<lambda>(net, api_key, p, total_pages, all_rows, w). nat (total_pages + 1 - p))") auto

declare pages_for.simps [simp del]

text \<open>
  The loop \<open>while True\<close> of \<open>main\<close>, taken when no total count is known. It runs for as long
  as the pages come back non-empty, so it need not return: \<open>None\<close> is a run that never ends.
\<close>

partial_function (option) pages_until_empty :: "network \<Rightarrow> ustring \<Rightarrow> int \<Rightarrow> row list \<Rightarrow> world
    \<Rightarrow> ((int + row list) \<times> world) option" where
  "pages_until_empty net api_key p all_rows w =
     (let start = (p - 1) * PAGE_SIZE + 1;
          stop = p * PAGE_SIZE;
          url = build_url api_key start stop
      in case fetch_page net url w of
           (Inl e, w1) \<Rightarrow> Some (Inl 3, w1\<lparr>errors := errors w1 @ [FetchFailed start stop e]\<rparr>)
         | (Inr d, w1) \<Rightarrow>
             (let rows = snd (extract_payload d);
                  w2 = w1\<lparr>printed := printed w1 @ [FetchedPage start stop (length rows)]\<rparr>
              in if rows = [] then Some (Inr all_rows, w2)
                 else pages_until_empty net api_key (p + 1) (all_rows @ rows) w2))"

subsection \<open>Projection and output\<close>

definition COMPACT_FIELDS :: "ustring list" where
  "COMPACT_FIELDS = [u ''SVCID'', u ''SVCNM'', u ''SVCSTATNM'', u ''AREANM'', u ''USETGTINFO'',
     u ''SVCURL'', u ''RCPTBGNDT'', u ''RCPTENDDT'', u ''SVCOPNBGNDT'', u ''SVCOPNENDDT'', u ''PLACENM'']"

text \<open>A \<open>Row\<close> object: its eleven fields in declaration order, each with its text.\<close>

definition from_dict :: "row \<Rightarrow> (ustring \<times> ustring) list" where
  "from_dict d = map (\<lambda>k. (k, py_or (get d k) [])) COMPACT_FIELDS"

definition to_compact_dict :: "(ustring \<times> ustring) list \<Rightarrow> row" where
  "to_compact_dict flds = map_of (map (\<lambda>(k, v). (k, PStr v)) flds)"

definition project_compact :: "row list \<Rightarrow> row list" where
  "project_compact rows = map (\<lambda>r. to_compact_dict (from_dict r)) rows"

definition write_json :: "ustring \<Rightarrow> row list \<Rightarrow> world \<Rightarrow> world" where
  "write_json path d w = w\<lparr>files := files w @ [(path, Json d)]\<rparr>"

definition write_csv_summary :: "ustring \<Rightarrow> row list \<Rightarrow> world \<Rightarrow> world" where
  "write_csv_summary path rows w =
     (let cols = [u ''SVCID'', u ''SVCNM'', u ''SVCSTATNM'', u ''AREANM'', u ''USETGTINFO'',
                  u ''SVCURL'', u ''RCPTBGNDT'', u ''RCPTENDDT'']
      in w\<lparr>files := files w @ [(path, Csv cols (map (\<lambda>r. map (\<lambda>c. py_or (get r c) []) cols) rows))]\<rparr>)"

subsection \<open>The environment\<close>

text \<open>
  \<open>_load_env_from_dotenv\<close>: the lines of the file \<open>.env\<close> (\<open>None\<close> when there is no such
  file) set the variables that the environment does not have yet. 35 is \<open>#\<close>, 61 is \<open>=\<close>,
  34 and 39 are the two quote characters.
\<close>

definition strip_char :: "nat \<Rightarrow> ustring \<Rightarrow> ustring" where
  "strip_char c s = rev (dropWhile (\<lambda>x. x = c) (rev (dropWhile (\<lambda>x. x = c) s)))"

fun load_env_lines :: "ustring list \<Rightarrow> (ustring \<rightharpoonup> ustring) \<Rightarrow> (ustring \<rightharpoonup> ustring)" where
  "load_env_lines [] environ = environ"
| "load_env_lines (line # rest) environ =
     (let s = strip line
      in if s = [] \<or> prefix [35] s then load_env_lines rest environ
         else if 61 \<notin> set s then load_env_lines rest environ
         else
           (let key = strip (takeWhile (\<lambda>c. c \<noteq> 61) s);
                val = strip_char 39 (strip_char 34 (strip (tl (dropWhile (\<lambda>c. c \<noteq> 61) s))))
            in if key \<noteq> [] \<and> environ key = None
               then load_env_lines rest (environ(key \<mapsto> val))
               else load_env_lines rest environ))"

definition load_env_from_dotenv :: "ustring list option \<Rightarrow> (ustring \<rightharpoonup> ustring) \<Rightarrow> (ustring \<rightharpoonup> ustring)" where
  "load_env_from_dotenv dotenv environ =
     (case dotenv of None \<Rightarrow> environ | Some lines \<Rightarrow> load_env_lines lines environ)"

subsection \<open>The Fetcher's main\<close>

text \<open>Lines 327 to 349 of \<open>main\<close>: sort, filter, project, write the four files, exit code 0.\<close>

definition write_outputs :: "row list \<Rightarrow> world \<Rightarrow> int \<times> world" where
  "write_outputs all_rows w =
     (let all_rows_sorted = sorted_by sort_key_row all_rows;
          (filtered_v12, filtered_v123) = filter_rows all_rows_sorted;
          v12_compact = project_compact filtered_v12;
          v123_compact = project_compact filtered_v123;
          v12_sorted_for_csv = sorted_by sort_key_row v12_compact;
          w1 = write_json (u ''seoul_education_all.json'') all_rows_sorted w;
          w2 = write_json (u ''seoul_education_v12.json'') v12_compact w1;
          w3 = write_json (u ''seoul_education_v123.json'') v123_compact w2;
          w4 = write_csv_summary (u ''seoul_education_summary.csv'') v12_sorted_for_csv w3;
          w5 = w4\<lparr>printed := printed w4 @ [FinalCounts (length all_rows_sorted) (length v12_compact) (length v123_compact)]\<rparr>
      in (0, w5))"

text \<open>
  \<open>main\<close> of the Fetcher, from the \<open>.env\<close> file, the process environment and the network to
  the exit code and what the run did; \<open>None\<close> when the run never ends.
\<close>

definition main_fetch :: "ustring list option \<Rightarrow> (ustring \<rightharpoonup> ustring) \<Rightarrow> network \<Rightarrow> (int \<times> world) option" where
  "main_fetch dotenv environ net =
     (let env = load_env_from_dotenv dotenv environ;
          api_key = strip (case env (u ''SEOUL_API_KEY'') of None \<Rightarrow> [] | Some v \<Rightarrow> v)
      in if api_key = [] then Some (2, world0\<lparr>errors := [MissingKey]\<rparr>)
         else
           (let start = 1;
                stop = PAGE_SIZE;
                url = build_url api_key start stop
            in case fetch_page net url world0 of
                 (Inl e, w1) \<Rightarrow> Some (3, w1\<lparr>errors := errors w1 @ [InitialFetchFailed e]\<rparr>)
               | (Inr d, w1) \<Rightarrow>
                   (let (total_count, first_rows) = extract_payload d;
                        w2 = w1\<lparr>printed := printed w1 @
                               [if total_count \<le> 0 then DiscoveredZero else Discovered total_count]\<rparr>;
                        all_rows = (if first_rows \<noteq> [] then [] @ first_rows else []);
                        w3 = w2\<lparr>printed := printed w2 @ [FetchedPage start stop (length first_rows)]\<rparr>;
                        fetched =
                          (if total_count > 0
                           then (let total_pages = (total_count + PAGE_SIZE - 1) div PAGE_SIZE
                                 in Some (pages_for net api_key 2 total_pages all_rows w3))
                           else pages_until_empty net api_key 2 all_rows w3)
                    in case fetched of
                         None \<Rightarrow> None
                       | Some (Inl code, w4) \<Rightarrow> Some (code, w4)
                       | Some (Inr rows, w4) \<Rightarrow> Some (write_outputs rows w4))))"

section \<open>Notions of the specification\<close>

text \<open>
  Following the specification: the outcomes of one request that count as a failure to be
  retried are a connection failure, a timeout, a 5xx status, and a 2xx response whose body
  does not parse.
\<close>

definition spec_retryable :: "response \<Rightarrow> bool" where
  "spec_retryable r =
     (case r of
        ConnectionError \<Rightarrow> True
      | Timeout \<Rightarrow> True
      | OtherException \<Rightarrow> False
      | Http status body \<Rightarrow>
          (500 \<le> status \<and> status < 600) \<or> (200 \<le> status \<and> status < 300 \<and> body = None))"

text \<open>
  The specification speaks of timestamp strings ``in the five supported formats''. Their
  canonical writing is with zero-padded decimal fields: \<open>pad2\<close>, \<open>pad4\<close> and \<open>pad6\<close> write
  a number with two, four and six ASCII digits (as \<^verbatim>\<open>%02d\<close>, \<^verbatim>\<open>%04d\<close> and \<^verbatim>\<open>%06d\<close> do).
\<close>

definition pad2 :: "nat \<Rightarrow> ustring" where
  "pad2 n = [48 + n div 10, 48 + n mod 10]"

definition pad4 :: "nat \<Rightarrow> ustring" where
  "pad4 n = pad2 (n div 100) @ pad2 (n mod 100)"

definition pad6 :: "nat \<Rightarrow> ustring" where
  "pad6 n = pad2 (n div 10000) @ pad2 (n div 100 mod 100) @ pad2 (n mod 100)"

section \<open>The turns of the page loops\<close>

text \<open>
  Both page loops of \<open>main\<close> have the same body. \<open>loop_entry\<close> is the state in which
  \<open>main\<close> enters its loop after the first page: the page number 2, the rows of the first
  page, and the world after the two lines printed. \<open>loop_step\<close> is one turn that goes on to
  the next page: the page was fetched and was not empty.
\<close>

definition loop_entry :: "data \<Rightarrow> world \<Rightarrow> int \<times> row list \<times> world" where
  "loop_entry d w1 =
     (let (total_count, first_rows) = extract_payload d
      in (2, first_rows,
          w1\<lparr>printed := printed w1 @
               [if total_count \<le> 0 then DiscoveredZero else Discovered total_count,
                FetchedPage 1 PAGE_SIZE (length first_rows)]\<rparr>))"

inductive loop_step :: "network \<Rightarrow> ustring \<Rightarrow> int \<times> row list \<times> world \<Rightarrow> int \<times> row list \<times> world \<Rightarrow> bool"
  for net :: network and api_key :: ustring where
  next_page:
    "fetch_page net (build_url api_key ((p - 1) * PAGE_SIZE + 1) (p * PAGE_SIZE)) w = (Inr d, w1)
     \<Longrightarrow> snd (extract_payload d) \<noteq> []
     \<Longrightarrow> loop_step net api_key (p, all_rows, w)
           (p + 1, all_rows @ snd (extract_payload d),
            w1\<lparr>printed := printed w1 @
                 [FetchedPage ((p - 1) * PAGE_SIZE + 1) (p * PAGE_SIZE) (length (snd (extract_payload d)))]\<rparr>)"

section \<open>Properties of the filter pipeline\<close>

lemma py_in_iff: "py_in n s \<longleftrightarrow> (\<exists>p q. s = p @ n @ q)"
proof (induction s)
  case Nil
  show ?case by simp
next
  case (Cons c s)
  have "(\<exists>p q. c # s = p @ n @ q) \<longleftrightarrow> prefix n (c # s) \<or> (\<exists>p q. s = p @ n @ q)"
  proof
    assume "\<exists>p q. c # s = p @ n @ q"
    then obtain p q where pq: "c # s = p @ n @ q" by blast
    show "prefix n (c # s) \<or> (\<exists>p q. s = p @ n @ q)"
    proof (cases p)
      case Nil
      with pq show ?thesis by (auto simp: prefix_def)
    next
      case (Cons a p')
      with pq have "s = p' @ n @ q" by simp
      then show ?thesis by blast
    qed
  next
    assume "prefix n (c # s) \<or> (\<exists>p q. s = p @ n @ q)"
    then show "\<exists>p q. c # s = p @ n @ q"
    proof
      assume "prefix n (c # s)"
      then obtain q where "c # s = n @ q" by (auto simp: prefix_def)
      then have "c # s = [] @ n @ q" by simp
      then show ?thesis by blast
    next
      assume "\<exists>p q. s = p @ n @ q"
      then obtain p q where "s = p @ n @ q" by blast
      then have "c # s = (c # p) @ n @ q" by simp
      then show ?thesis by blast
    qed
  qed
  with Cons.IH show ?case by simp
qed

lemma py_or_get:
  "py_or (get r k) d = (case r k of Some (PStr s) \<Rightarrow> (if s = [] then d else s) | _ \<Rightarrow> d)"
  by (simp add: get_def split: option.splits pyval.splits)

lemma filter_loop_eq:
  "filter_loop rows (a, b) =
     (a @ filter (\<lambda>r. py_or (get r (u ''AREANM'')) [] \<in> areas \<and> py_or (get r (u ''SVCSTATNM'')) [] \<in> statuses) rows,
      b @ filter (\<lambda>r. (py_or (get r (u ''AREANM'')) [] \<in> areas \<and> py_or (get r (u ''SVCSTATNM'')) [] \<in> statuses)
                 \<and> contains_any (py_or (get r (u ''USETGTINFO'')) []) needles) rows)"
  by (induction rows arbitrary: a b) (simp_all add: Let_def)

lemma filter_rows_eq:
  "filter_rows rows =
     (filter (\<lambda>r. py_or (get r (u ''AREANM'')) [] \<in> areas \<and> py_or (get r (u ''SVCSTATNM'')) [] \<in> statuses) rows,
      filter (\<lambda>r. contains_any (py_or (get r (u ''USETGTINFO'')) []) needles)
        (filter (\<lambda>r. py_or (get r (u ''AREANM'')) [] \<in> areas \<and> py_or (get r (u ''SVCSTATNM'')) [] \<in> statuses) rows))"
  by (simp add: filter_rows_def filter_loop_eq conj_commute)

lemma in_areas_iff:
  "py_or (get r k) [] \<in> areas \<longleftrightarrow> (\<exists>a \<in> {gangnam, seocho, songpa}. r k = Some (PStr a))"
  by (auto simp: py_or_get areas_def gangnam_def seocho_def songpa_def split: option.splits pyval.splits)

lemma in_statuses_iff:
  "py_or (get r k) [] \<in> statuses \<longleftrightarrow> (\<exists>t \<in> {receiving, guiding}. r k = Some (PStr t))"
  by (auto simp: py_or_get statuses_def receiving_def guiding_def split: option.splits pyval.splits)

lemma needles_nonempty: "n \<in> set needles \<Longrightarrow> n \<noteq> []"
  by (auto simp: needles_def infant_def unrestricted_def family_def)

lemma contains_any_iff:
  "contains_any (py_or (get r k) []) needles \<longleftrightarrow>
     (\<exists>x. r k = Some (PStr x) \<and> (\<exists>n \<in> {infant, unrestricted, family}. \<exists>p q. x = p @ n @ q))"
proof -
  have "contains_any s needles \<longleftrightarrow> (\<exists>n \<in> {infant, unrestricted, family}. \<exists>p q. s = p @ n @ q)" for s
    by (simp add: contains_any_def list_ex_iff py_in_iff needles_def)
  moreover have "\<not> (\<exists>n \<in> {infant, unrestricted, family}. \<exists>p q. [] = p @ n @ q)"
    by (simp add: infant_def unrestricted_def family_def)
  ultimately show ?thesis
    by (auto simp: py_or_get split: option.splits pyval.splits)
qed

text \<open>
  C1: a record is placed in the v12 output exactly when its \<open>AREANM\<close> is one of the three
  district names and its \<open>SVCSTATNM\<close> is one of the two status strings; a record of the v12
  output is placed in the v123 output exactly when its \<open>USETGTINFO\<close> contains one of the three
  needles as a contiguous run of characters. A record with the area Gangnam-gu, the status
  "receiving" and the usage target of the scenario is in both outputs.
\<close>

theorem filter_rows_membership:
  "fst (filter_rows rows) =
     filter (\<lambda>r. (\<exists>a \<in> {gangnam, seocho, songpa}. r (u ''AREANM'') = Some (PStr a))
               \<and> (\<exists>t \<in> {receiving, guiding}. r (u ''SVCSTATNM'') = Some (PStr t))) rows
   \<and> snd (filter_rows rows) =
     filter (\<lambda>r. \<exists>x. r (u ''USETGTINFO'') = Some (PStr x)
               \<and> (\<exists>n \<in> {infant, unrestricted, family}. \<exists>p q. x = p @ n @ q)) (fst (filter_rows rows))
   \<and> (\<forall>r \<in> set rows.
         r (u ''AREANM'') = Some (PStr gangnam) \<and> r (u ''SVCSTATNM'') = Some (PStr receiving)
         \<and> r (u ''USETGTINFO'') = Some (PStr [50689, 50976, 50500, 32, 48143, 32, 44032, 51313, 32, 45824, 49345])
         \<longrightarrow> r \<in> set (fst (filter_rows rows)) \<and> r \<in> set (snd (filter_rows rows)))"
proof -
  have a: "fst (filter_rows rows) =
     filter (\<lambda>r. (\<exists>a \<in> {gangnam, seocho, songpa}. r (u ''AREANM'') = Some (PStr a))
               \<and> (\<exists>t \<in> {receiving, guiding}. r (u ''SVCSTATNM'') = Some (PStr t))) rows"
    by (simp only: filter_rows_eq fst_conv in_areas_iff in_statuses_iff)
  have b: "snd (filter_rows rows) =
     filter (\<lambda>r. \<exists>x. r (u ''USETGTINFO'') = Some (PStr x)
               \<and> (\<exists>n \<in> {infant, unrestricted, family}. \<exists>p q. x = p @ n @ q)) (fst (filter_rows rows))"
    by (simp only: filter_rows_eq fst_conv snd_conv contains_any_iff)
  have ex: "[50689, 50976, 50500, 32, 48143, 32, 44032, 51313, 32, 45824, 49345]
      = [50689] @ infant @ [32, 48143, 32, 44032, 51313, 32, 45824, 49345]"
    by (simp add: infant_def)
  have c: "r \<in> set (fst (filter_rows rows)) \<and> r \<in> set (snd (filter_rows rows))"
    if "r \<in> set rows" and "r (u ''AREANM'') = Some (PStr gangnam)"
      and "r (u ''SVCSTATNM'') = Some (PStr receiving)"
      and "r (u ''USETGTINFO'') = Some (PStr [50689, 50976, 50500, 32, 48143, 32, 44032, 51313, 32, 45824, 49345])"
    for r
  proof -
    from that(1-3) have 1: "r \<in> set (fst (filter_rows rows))"
      by (subst a) simp
    have "\<exists>n \<in> {infant, unrestricted, family}. \<exists>p q.
        [50689, 50976, 50500, 32, 48143, 32, 44032, 51313, 32, 45824, 49345::nat] = p @ n @ q"
      using ex by blast
    with that(4) 1 have "r \<in> set (snd (filter_rows rows))"
      by (subst b) simp
    with 1 show ?thesis ..
  qed
  from a b c show ?thesis by blast
qed

text \<open>C1 at the scenario's record, after a record whose status is "closed".\<close>

theorem filter_rows_membership_witness:
  "[u ''AREANM'' \<mapsto> PStr gangnam, u ''SVCSTATNM'' \<mapsto> PStr receiving,
    u ''USETGTINFO'' \<mapsto> PStr [50689, 50976, 50500, 32, 48143, 32, 44032, 51313, 32, 45824, 49345]]
     \<in> set (snd (filter_rows
         [[u ''AREANM'' \<mapsto> PStr gangnam, u ''SVCSTATNM'' \<mapsto> PStr [47560, 44048]],
          [u ''AREANM'' \<mapsto> PStr gangnam, u ''SVCSTATNM'' \<mapsto> PStr receiving,
           u ''USETGTINFO'' \<mapsto> PStr [50689, 50976, 50500, 32, 48143, 32, 44032, 51313, 32, 45824, 49345]]]))"
proof -
  let ?r = "[u ''AREANM'' \<mapsto> PStr gangnam, u ''SVCSTATNM'' \<mapsto> PStr receiving,
    u ''USETGTINFO'' \<mapsto> PStr [50689, 50976, 50500, 32, 48143, 32, 44032, 51313, 32, 45824, 49345]]"
  let ?rows = "[[u ''AREANM'' \<mapsto> PStr gangnam, u ''SVCSTATNM'' \<mapsto> PStr [47560, 44048]], ?r]"
  have mem: "?r \<in> set ?rows" by simp
  have h: "?r (u ''AREANM'') = Some (PStr gangnam) \<and> ?r (u ''SVCSTATNM'') = Some (PStr receiving)
      \<and> ?r (u ''USETGTINFO'') = Some (PStr [50689, 50976, 50500, 32, 48143, 32, 44032, 51313, 32, 45824, 49345])"
    by (simp add: u_def)
  from filter_rows_membership [of ?rows] mem h show ?thesis by blast
qed

text \<open>
  C2 as stated fails: a record with no \<open>USETGTINFO\<close> at all, in an allowed area and with an
  allowed status, is in the v12 output.
\<close>

theorem missing_target_passes_v12:
  "[u ''AREANM'' \<mapsto> PStr gangnam, u ''SVCSTATNM'' \<mapsto> PStr receiving] (u ''USETGTINFO'') = None
   \<and> [u ''AREANM'' \<mapsto> PStr gangnam, u ''SVCSTATNM'' \<mapsto> PStr receiving]
       \<in> set (fst (filter_rows [[u ''AREANM'' \<mapsto> PStr gangnam, u ''SVCSTATNM'' \<mapsto> PStr receiving]]))"
  by (simp add: filter_rows_def u_def get_def areas_def statuses_def)

text \<open>
  C2, amended: a record whose \<open>AREANM\<close> or \<open>SVCSTATNM\<close> is absent, \<open>null\<close> or empty is in
  neither output; a record whose \<open>USETGTINFO\<close> is absent, \<open>null\<close> or empty is not in the v123
  output.
\<close>

theorem empty_fields_never_pass:
  "(r (u ''AREANM'') \<in> {None, Some PNone, Some (PStr [])}
      \<or> r (u ''SVCSTATNM'') \<in> {None, Some PNone, Some (PStr [])}
    \<longrightarrow> r \<notin> set (fst (filter_rows rows)) \<and> r \<notin> set (snd (filter_rows rows)))
   \<and> (r (u ''USETGTINFO'') \<in> {None, Some PNone, Some (PStr [])}
    \<longrightarrow> r \<notin> set (snd (filter_rows rows)))"
proof -
  let ?E = "{None, Some PNone, Some (PStr [])} :: pyval option set"
  have e: "py_or (get r k) [] = []" if "r k \<in> ?E" for k
    using that by (auto simp: py_or_get)
  have a: "py_or (get r k) [] \<notin> areas" if "r k \<in> ?E" for k
    using e [OF that] by (simp add: areas_def gangnam_def seocho_def songpa_def)
  have b: "py_or (get r k) [] \<notin> statuses" if "r k \<in> ?E" for k
    using e [OF that] by (simp add: statuses_def receiving_def guiding_def)
  have c: "\<not> contains_any (py_or (get r k) []) needles" if "r k \<in> ?E" for k
    using e [OF that] by (simp add: contains_any_def needles_def infant_def unrestricted_def family_def)
  have 1: "r \<notin> set (fst (filter_rows rows)) \<and> r \<notin> set (snd (filter_rows rows))"
    if "r (u ''AREANM'') \<in> ?E \<or> r (u ''SVCSTATNM'') \<in> ?E"
    using that a [of "u ''AREANM''"] b [of "u ''SVCSTATNM''"] by (auto simp: filter_rows_eq)
  have 2: "r \<notin> set (snd (filter_rows rows))" if "r (u ''USETGTINFO'') \<in> ?E"
    using c [OF that] by (simp add: filter_rows_eq)
  from 1 2 show ?thesis by blast
qed

text \<open>C2, amended, at a record with an empty area and at a record with no usage target.\<close>

theorem empty_fields_never_pass_witness:
  "[u ''AREANM'' \<mapsto> PStr [], u ''SVCSTATNM'' \<mapsto> PStr receiving, u ''USETGTINFO'' \<mapsto> PStr family]
     \<notin> set (fst (filter_rows
          [[u ''AREANM'' \<mapsto> PStr [], u ''SVCSTATNM'' \<mapsto> PStr receiving, u ''USETGTINFO'' \<mapsto> PStr family]]))
   \<and> [u ''AREANM'' \<mapsto> PStr gangnam, u ''SVCSTATNM'' \<mapsto> PStr receiving]
     \<notin> set (snd (filter_rows [[u ''AREANM'' \<mapsto> PStr gangnam, u ''SVCSTATNM'' \<mapsto> PStr receiving]]))"
  using empty_fields_never_pass [of
      "[u ''AREANM'' \<mapsto> PStr [], u ''SVCSTATNM'' \<mapsto> PStr receiving, u ''USETGTINFO'' \<mapsto> PStr family]"
      "[[u ''AREANM'' \<mapsto> PStr [], u ''SVCSTATNM'' \<mapsto> PStr receiving, u ''USETGTINFO'' \<mapsto> PStr family]]"]
    empty_fields_never_pass [of
      "[u ''AREANM'' \<mapsto> PStr gangnam, u ''SVCSTATNM'' \<mapsto> PStr receiving]"
      "[[u ''AREANM'' \<mapsto> PStr gangnam, u ''SVCSTATNM'' \<mapsto> PStr receiving]]"]
  by (simp add: u_def)

lemma count_list_filter:
  "count_list (filter P xs) x = (if P x then count_list xs x else 0)"
  by (induction xs) auto

text \<open>
  C6: every record of the v123 output is in the v12 output; v123 is a subsequence of v12 and
  both are subsequences of the input, so the order is kept; a record that passes occurs in
  the output as often as in the input, so nothing is deduplicated.
\<close>

theorem filter_rows_subsequences:
  "set (snd (filter_rows rows)) \<subseteq> set (fst (filter_rows rows))
   \<and> subseq (snd (filter_rows rows)) (fst (filter_rows rows))
   \<and> subseq (fst (filter_rows rows)) rows
   \<and> subseq (snd (filter_rows rows)) rows
   \<and> (\<forall>r \<in> set (fst (filter_rows rows)). count_list (fst (filter_rows rows)) r = count_list rows r)
   \<and> (\<forall>r \<in> set (snd (filter_rows rows)). count_list (snd (filter_rows rows)) r = count_list rows r)"
proof -
  let ?v12 = "fst (filter_rows rows)" and ?v123 = "snd (filter_rows rows)"
  have v123: "?v123 = filter (\<lambda>r. contains_any (py_or (get r (u ''USETGTINFO'')) []) needles) ?v12"
    by (simp only: filter_rows_eq fst_conv snd_conv)
  have "\<exists>P. ?v12 = filter P rows"
    by (simp only: filter_rows_eq fst_conv) blast
  then obtain P where v12: "?v12 = filter P rows" ..
  have s1: "subseq ?v123 ?v12" by (subst v123) (rule subseq_filter_left)
  have s2: "subseq ?v12 rows" by (subst v12) (rule subseq_filter_left)
  from s1 s2 have s3: "subseq ?v123 rows" by (rule subseq_order.trans)
  have m: "set ?v123 \<subseteq> set ?v12" by (subst v123) auto
  have c1: "\<forall>r \<in> set ?v12. count_list ?v12 r = count_list rows r"
    by (subst (1 2) v12) (simp add: count_list_filter)
  have "\<forall>r \<in> set ?v123. count_list ?v123 r = count_list ?v12 r"
    by (subst (1 2) v123) (simp add: count_list_filter)
  with c1 m have c2: "\<forall>r \<in> set ?v123. count_list ?v123 r = count_list rows r"
    by auto
  from m s1 s2 s3 c1 c2 show ?thesis by blast
qed

text \<open>C6 at an input that holds the same passing record twice.\<close>

theorem filter_rows_subsequences_witness:
  "count_list (fst (filter_rows
      [[u ''AREANM'' \<mapsto> PStr gangnam, u ''SVCSTATNM'' \<mapsto> PStr receiving],
       [u ''AREANM'' \<mapsto> PStr gangnam, u ''SVCSTATNM'' \<mapsto> PStr receiving]]))
     [u ''AREANM'' \<mapsto> PStr gangnam, u ''SVCSTATNM'' \<mapsto> PStr receiving] = 2"
proof -
  have m: "[u ''AREANM'' \<mapsto> PStr gangnam, u ''SVCSTATNM'' \<mapsto> PStr receiving]
      \<in> set (fst (filter_rows
      [[u ''AREANM'' \<mapsto> PStr gangnam, u ''SVCSTATNM'' \<mapsto> PStr receiving],
       [u ''AREANM'' \<mapsto> PStr gangnam, u ''SVCSTATNM'' \<mapsto> PStr receiving]]))"
    by (simp add: filter_rows_def u_def get_def areas_def statuses_def)
  show ?thesis
    using m filter_rows_subsequences [of
      "[[u ''AREANM'' \<mapsto> PStr gangnam, u ''SVCSTATNM'' \<mapsto> PStr receiving],
       [u ''AREANM'' \<mapsto> PStr gangnam, u ''SVCSTATNM'' \<mapsto> PStr receiving]]"]
    by simp
qed

section \<open>Properties of truncation\<close>

text \<open>
  C9: for every limit \<open>n\<close> of at least 1, so for the Composer's limits 10, 19 and 40: a
  non-empty string of length at most \<open>n\<close> is returned unchanged; a longer string becomes its
  first \<open>n - 1\<close> characters followed by the ellipsis marker, of length exactly \<open>n\<close>; the
  empty string becomes the dash, and a field that is absent, \<open>null\<close> or empty reaches \<open>trunc\<close>
  as the dash and leaves it as the dash.
\<close>

theorem trunc_rule:
  "1 \<le> n \<Longrightarrow>
     (s \<noteq> [] \<and> int (length s) \<le> n \<longrightarrow> trunc s n = s)
   \<and> (int (length s) > n \<longrightarrow>
        trunc s n = take (nat n - 1) s @ ellipsis \<and> int (length (trunc s n)) = n)
   \<and> trunc [] n = u ''-''
   \<and> (r k \<in> {None, Some PNone, Some (PStr [])} \<longrightarrow>
        py_or (get r k) (u ''-'') = u ''-'' \<and> trunc (py_or (get r k) (u ''-'')) n = u ''-'')"
proof -
  assume n: "1 \<le> n"
  have a: "trunc s n = s" if "s \<noteq> []" "int (length s) \<le> n"
    using that by (simp add: trunc_def)
  have b: "trunc s n = take (nat n - 1) s @ ellipsis \<and> int (length (trunc s n)) = n"
    if "int (length s) > n"
  proof -
    from that n have ne: "s \<noteq> []" by auto
    have m: "nat (max 0 (n - 1)) = nat n - 1" using n by simp
    from that ne have t: "trunc s n = take (nat n - 1) s @ ellipsis"
      by (simp add: trunc_def m)
    from that n have "length (take (nat n - 1) s) = nat n - 1" by simp
    with n have "int (length (take (nat n - 1) s @ ellipsis)) = n"
      by (simp add: ellipsis_def)
    with t show ?thesis by simp
  qed
  have d: "length (u ''-'') = 1" by (simp add: u_def)
  have c: "trunc [] n = u ''-''"
    using n by (simp add: trunc_def d)
  have e: "py_or (get r k) (u ''-'') = u ''-'' \<and> trunc (py_or (get r k) (u ''-'')) n = u ''-''"
    if "r k \<in> {None, Some PNone, Some (PStr [])}"
  proof -
    from that have 1: "py_or (get r k) (u ''-'') = u ''-''"
      by (auto simp: get_def)
    have "u ''-'' \<noteq> []" by (simp add: u_def)
    then have "trunc (u ''-'') n = u ''-''"
      using n by (simp add: trunc_def d)
    with 1 show ?thesis by simp
  qed
  from a b c e show ?thesis by blast
qed

text \<open>C9 at the limits 10, 19 and 40.\<close>

theorem trunc_rule_witness:
  "trunc (u ''Gangnam-gu Office'') 10 = u ''Gangnam-g'' @ ellipsis
   \<and> trunc (u ''2025-08-25 10:00:00.0'') 19 = u ''2025-08-25 10:00:0'' @ ellipsis
   \<and> trunc (u ''short'') 40 = u ''short''
   \<and> trunc [] 40 = u ''-''"
proof -
  have l: "int (length (u ''Gangnam-gu Office'')) > 10" "int (length (u ''2025-08-25 10:00:00.0'')) > 19"
    "u ''short'' \<noteq> [] \<and> int (length (u ''short'')) \<le> 40"
    by (simp_all add: u_def)
  have t: "take (nat 10 - 1) (u ''Gangnam-gu Office'') = u ''Gangnam-g''"
    "take (nat 19 - 1) (u ''2025-08-25 10:00:00.0'') = u ''2025-08-25 10:00:0''"
    by (simp_all add: u_def)
  from trunc_rule [of 10 "u ''Gangnam-gu Office''"] trunc_rule [of 19 "u ''2025-08-25 10:00:00.0''"]
    trunc_rule [of 40 "u ''short''"] l t
  show ?thesis by simp
qed

section \<open>Properties of timestamp parsing\<close>

text \<open>The equations that evaluate \<open>parse_dt\<close> on a given text.\<close>

lemmas strp_eval = parse_dt_def strip_def is_space_def fmts_def strptime_def defaults_def
  re_Y_def re_m_def re_d_def re_H_def re_M_def re_S_def re_f_def re_ws_def two_def
  digit_val_def digit_zeros_def is_ascii_digit_def digits_value_def datetime_new_def
  days_in_month_def isleap_def u_def

lemma try_formats_Some:
  "try_formats s fs = Some d \<longleftrightarrow>
     (\<exists>i < length fs. strptime s (fs ! i) = Some d \<and> (\<forall>j < i. strptime s (fs ! j) = None))"
proof (induction fs)
  case Nil
  show ?case by simp
next
  case (Cons f fs)
  show ?case
  proof (cases "strptime s f")
    case (Some e)
    have "(\<exists>i < length (f # fs). strptime s ((f # fs) ! i) = Some d \<and> (\<forall>j < i. strptime s ((f # fs) ! j) = None))
        \<longleftrightarrow> e = d"
    proof
      assume "\<exists>i < length (f # fs). strptime s ((f # fs) ! i) = Some d \<and> (\<forall>j < i. strptime s ((f # fs) ! j) = None)"
      then obtain i where i: "strptime s ((f # fs) ! i) = Some d" "\<forall>j < i. strptime s ((f # fs) ! j) = None"
        by blast
      have "i = 0"
      proof (rule ccontr)
        assume "i \<noteq> 0"
        then have "0 < i" by simp
        with i(2) have "strptime s ((f # fs) ! 0) = None" by blast
        with Some show False by simp
      qed
      with i(1) Some show "e = d" by simp
    next
      assume "e = d"
      with Some have "strptime s ((f # fs) ! 0) = Some d \<and> (\<forall>j < 0. strptime s ((f # fs) ! j) = None)"
        by simp
      then show "\<exists>i < length (f # fs). strptime s ((f # fs) ! i) = Some d \<and> (\<forall>j < i. strptime s ((f # fs) ! j) = None)"
        by (intro exI [of _ 0]) simp
    qed
    with Some show ?thesis by simp
  next
    case None
    have "(\<exists>i < length (f # fs). strptime s ((f # fs) ! i) = Some d \<and> (\<forall>j < i. strptime s ((f # fs) ! j) = None))
        \<longleftrightarrow> (\<exists>i < length fs. strptime s (fs ! i) = Some d \<and> (\<forall>j < i. strptime s (fs ! j) = None))"
      (is "?L \<longleftrightarrow> ?R")
    proof
      assume ?L
      then obtain i where i: "i < length (f # fs)" "strptime s ((f # fs) ! i) = Some d"
        "\<forall>j < i. strptime s ((f # fs) ! j) = None" by blast
      from i(2) None obtain i' where i': "i = Suc i'" by (cases i) auto
      from i(3) i' have "\<forall>j < i'. strptime s (fs ! j) = None"
        by (metis Suc_less_eq nth_Cons_Suc)
      with i(1,2) i' show ?R by auto
    next
      assume ?R
      then obtain i where i: "i < length fs" "strptime s (fs ! i) = Some d"
        "\<forall>j < i. strptime s (fs ! j) = None" by blast
      have "\<forall>j < Suc i. strptime s ((f # fs) ! j) = None"
      proof (intro allI impI)
        fix j assume "j < Suc i"
        with i(3) None show "strptime s ((f # fs) ! j) = None"
          by (cases j) auto
      qed
      with i(1,2) show ?L
        by (intro exI [of _ "Suc i"]) simp
    qed
    with None Cons.IH show ?thesis by simp
  qed
qed

lemma try_formats_None:
  "try_formats s fs = None \<longleftrightarrow> (\<forall>f \<in> set fs. strptime s f = None)"
  by (induction fs) (auto split: option.splits)

lemma parse_dt_e3: "parse_dt (u ''2025-08-25'') = Some (2025, 8, 25, 0, 0, 0, 0)"
  by (simp add: strp_eval)

text \<open>
  C4: \<open>parse_dt\<close> goes through the five formats in the order given, on the text stripped of
  surrounding white space, and returns what \<open>strptime\<close> returns for the first format that it
  accepts. It returns \<open>None\<close> exactly for the empty string and for a text that none of the
  five formats accepts; being a total function into \<open>option\<close>, it raises nothing.
\<close>

theorem parse_dt_first_match:
  "fmts = [[DY, Lit 45, Dm, Lit 45, Dd, Ws, DH, Lit 58, DM, Lit 58, DS, Lit 46, Df],
           [DY, Lit 45, Dm, Lit 45, Dd, Ws, DH, Lit 58, DM, Lit 58, DS],
           [DY, Lit 45, Dm, Lit 45, Dd],
           [DY, Dm, Dd, DH, DM, DS],
           [DY, Dm, Dd]]
   \<and> (parse_dt s = Some d \<longleftrightarrow>
        s \<noteq> [] \<and> (\<exists>i < 5. strptime (strip s) (fmts ! i) = Some d
                       \<and> (\<forall>j < i. strptime (strip s) (fmts ! j) = None)))
   \<and> (parse_dt s = None \<longleftrightarrow> s = [] \<or> (\<forall>i < 5. strptime (strip s) (fmts ! i) = None))"
proof -
  have len: "length fmts = 5" by (simp add: fmts_def)
  have a: "parse_dt s = Some d \<longleftrightarrow>
        s \<noteq> [] \<and> (\<exists>i < 5. strptime (strip s) (fmts ! i) = Some d
                       \<and> (\<forall>j < i. strptime (strip s) (fmts ! j) = None))"
    by (simp add: parse_dt_def try_formats_Some len)
  have "(\<forall>f \<in> set fmts. strptime (strip s) f = None) \<longleftrightarrow> (\<forall>i < 5. strptime (strip s) (fmts ! i) = None)"
    using len by (metis in_set_conv_nth)
  then have b: "parse_dt s = None \<longleftrightarrow> s = [] \<or> (\<forall>i < 5. strptime (strip s) (fmts ! i) = None)"
    by (simp add: parse_dt_def try_formats_None)
  from a b show ?thesis by (simp add: fmts_def)
qed

lemma strptime_fmts_2025_08_25:
  "strptime (strip (u ''2025-08-25'')) (fmts ! 0) = None"
  "strptime (strip (u ''2025-08-25'')) (fmts ! 1) = None"
  "strptime (strip (u ''2025-08-25'')) (fmts ! 2) = Some (2025, 8, 25, 0, 0, 0, 0)"
  by (simp_all add: strp_eval)

lemma strptime_fmts_garbage:
  "\<forall>f \<in> set fmts. strptime (strip (u ''garbage'')) f = None"
  by (simp add: strp_eval)

text \<open>
  C4 at a date that the third format is the first to accept, and at a text that no format accepts.
\<close>

theorem parse_dt_first_match_witness:
  "parse_dt (u ''2025-08-25'') = Some (2025, 8, 25, 0, 0, 0, 0) \<and> parse_dt (u ''garbage'') = None"
proof -
  have "\<forall>j < (2::nat). strptime (strip (u ''2025-08-25'')) (fmts ! j) = None"
  proof (intro allI impI)
    fix j :: nat assume "j < 2"
    then have "j = 0 \<or> j = 1" by auto
    with strptime_fmts_2025_08_25(1,2) show "strptime (strip (u ''2025-08-25'')) (fmts ! j) = None"
      by auto
  qed
  with strptime_fmts_2025_08_25(3)
  have "\<exists>i < (5::nat). strptime (strip (u ''2025-08-25'')) (fmts ! i) = Some (2025, 8, 25, 0, 0, 0, 0)
      \<and> (\<forall>j < i. strptime (strip (u ''2025-08-25'')) (fmts ! j) = None)"
    by (intro exI [of _ 2]) simp
  moreover have "u ''2025-08-25'' \<noteq> []" by (simp add: u_def)
  ultimately have a: "parse_dt (u ''2025-08-25'') = Some (2025, 8, 25, 0, 0, 0, 0)"
    using parse_dt_first_match [of "u ''2025-08-25''" "(2025, 8, 25, 0, 0, 0, 0)"] by blast
  have len: "length fmts = 5" by (simp add: fmts_def)
  have "\<forall>i < 5. strptime (strip (u ''garbage'')) (fmts ! i) = None"
    using strptime_fmts_garbage len by simp
  then have b: "parse_dt (u ''garbage'') = None"
    using parse_dt_first_match [of "u ''garbage''" undefined] by blast
  from a b show ?thesis ..
qed


section \<open>Round trip of the five formats\<close>

subsection \<open>The matcher on zero-padded fields\<close>

text \<open>On a zero-padded field, the first choice of each directive is the whole field.\<close>

lemma digit_val_ascii: "48 \<le> c \<Longrightarrow> c \<le> 57 \<Longrightarrow> digit_val c = Some (c - 48)"
  by (simp add: digit_val_def digit_zeros_def)

lemma dig_ascii: "48 \<le> c \<Longrightarrow> c \<le> 57 \<Longrightarrow> dig (c # s) = [(c - 48, s)]"
  by (simp add: digit_val_ascii)

lemma two_dig_pad2: "n < 100 \<Longrightarrow> two dig dig (pad2 n @ s) = [(n, s)]"
proof -
  assume n: "n < 100"
  then have "n div 10 < 10" "n mod 10 < 10" by simp_all
  then show ?thesis
    by (simp add: two_def pad2_def dig_ascii del: dig.simps)
qed

lemma re_Y_pad4: "y < 10000 \<Longrightarrow> re_Y (pad4 y @ s) = [(y, s)]"
proof -
  assume "y < 10000"
  then have "y div 100 < 100" "y mod 100 < 100" by simp_all
  then show ?thesis
    by (simp add: re_Y_def pad4_def two_dig_pad2)
qed

lemma re_m_pad2:
  assumes "1 \<le> m" "m \<le> 12"
  shows "\<exists>tl. re_m (pad2 m @ s) = (m, s) # tl"
proof -
  define a b where "a = m div 10" and "b = m mod 10"
  have ab: "a < 10" "b < 10" "m = 10 * a + b" "pad2 m = [48 + a, 48 + b]"
    using assms by (simp_all add: a_def b_def pad2_def)
  from assms ab(1-3) have "(a = 0 \<and> 1 \<le> b) \<or> (a = 1 \<and> b \<le> 2)" by arith
  then show ?thesis
    using ab by (auto simp: re_m_def two_def)
qed

lemma re_d_pad2:
  assumes "1 \<le> d" "d \<le> 31"
  shows "\<exists>tl. re_d (pad2 d @ s) = (d, s) # tl"
proof -
  define a b where "a = d div 10" and "b = d mod 10"
  have ab: "a < 10" "b < 10" "d = 10 * a + b" "pad2 d = [48 + a, 48 + b]"
    using assms by (simp_all add: a_def b_def pad2_def)
  from assms ab(1-3) have "(a = 0 \<and> 1 \<le> b) \<or> a = 1 \<or> a = 2 \<or> (a = 3 \<and> b \<le> 1)" by arith
  then show ?thesis
    using ab by (auto simp: re_d_def two_def digit_val_ascii)
qed

lemma re_H_pad2:
  assumes "H \<le> 23"
  shows "\<exists>tl. re_H (pad2 H @ s) = (H, s) # tl"
proof -
  define a b where "a = H div 10" and "b = H mod 10"
  have ab: "a < 10" "b < 10" "H = 10 * a + b" "pad2 H = [48 + a, 48 + b]"
    using assms by (simp_all add: a_def b_def pad2_def)
  from assms ab(1-3) have "a = 0 \<or> a = 1 \<or> (a = 2 \<and> b \<le> 3)" by arith
  then show ?thesis
    using ab by (auto simp: re_H_def two_def digit_val_ascii)
qed

lemma re_M_pad2:
  assumes "M \<le> 59"
  shows "\<exists>tl. re_M (pad2 M @ s) = (M, s) # tl"
proof -
  define a b where "a = M div 10" and "b = M mod 10"
  have ab: "a < 10" "b < 10" "M = 10 * a + b" "pad2 M = [48 + a, 48 + b]"
    using assms by (simp_all add: a_def b_def pad2_def)
  from assms ab(1-3) have "a \<le> 5" by arith
  then show ?thesis
    using ab by (auto simp: re_M_def two_def digit_val_ascii)
qed

lemma re_S_pad2:
  assumes "S \<le> 59"
  shows "\<exists>tl. re_S (pad2 S @ s) = (S, s) # tl"
proof -
  define a b where "a = S div 10" and "b = S mod 10"
  have ab: "a < 10" "b < 10" "S = 10 * a + b" "pad2 S = [48 + a, 48 + b]"
    using assms by (simp_all add: a_def b_def pad2_def)
  from assms ab(1-3) have "a \<le> 5" by arith
  then show ?thesis
    using ab by (auto simp: re_S_def two_def digit_val_ascii)
qed

lemma digits_value_pad2: "digits_value (ds @ pad2 n) = 100 * digits_value ds + 10 * (n div 10) + n mod 10"
  by (simp add: digits_value_def pad2_def)

lemma digits_value_pad6: "f < 1000000 \<Longrightarrow> digits_value (pad6 f) = f"
proof -
  assume "f < 1000000"
  have 1: "digits_value (pad2 (f div 10000)) = f div 10000"
    using digits_value_pad2 [of "[]" "f div 10000"] by (simp add: digits_value_def)
  have 2: "digits_value (pad2 (f div 10000) @ pad2 (f div 100 mod 100)) = 100 * (f div 10000) + f div 100 mod 100"
    using digits_value_pad2 [of "pad2 (f div 10000)" "f div 100 mod 100"] 1 by simp
  have 3: "digits_value ((pad2 (f div 10000) @ pad2 (f div 100 mod 100)) @ pad2 (f mod 100))
      = 100 * (100 * (f div 10000) + f div 100 mod 100) + f mod 100"
    using digits_value_pad2 [of "pad2 (f div 10000) @ pad2 (f div 100 mod 100)" "f mod 100"] 2 by simp
  have "f div 10000 = f div 100 div 100"
    using div_mult2_eq [of f 100 100] by simp
  then have "100 * (f div 10000) + f div 100 mod 100 = f div 100"
    by simp
  with 3 show ?thesis by (simp add: pad6_def)
qed

lemma length_pad2 [simp]: "length (pad2 n) = 2"
  by (simp add: pad2_def)

lemma length_pad4 [simp]: "length (pad4 n) = 4"
  by (simp add: pad4_def)

lemma length_pad6 [simp]: "length (pad6 n) = 6"
  by (simp add: pad6_def)

lemma pad2_ascii: "n < 100 \<Longrightarrow> \<forall>c \<in> set (pad2 n). is_ascii_digit c"
proof -
  assume "n < 100"
  then have "n div 10 < 10" by simp
  then show ?thesis by (simp add: pad2_def is_ascii_digit_def)
qed

lemma pad6_ascii: "f < 1000000 \<Longrightarrow> \<forall>c \<in> set (pad6 f). is_ascii_digit c"
proof -
  assume "f < 1000000"
  then have "f div 10000 < 100" "f div 100 mod 100 < 100" "f mod 100 < 100" by simp_all
  from this [THEN pad2_ascii] show ?thesis by (simp add: pad6_def ball_Un)
qed

lemma re_f_pad6:
  assumes "f < 1000000"
  shows "\<exists>tl. re_f (pad6 f @ s) = (f, s) # tl"
proof -
  have t: "take 6 (pad6 f @ s) = pad6 f" by simp
  from pad6_ascii [OF assms] have "takeWhile is_ascii_digit (pad6 f) = pad6 f"
    by (simp add: takeWhile_eq_all_conv)
  then have n: "length (takeWhile is_ascii_digit (take 6 (pad6 f @ s))) = 6"
    by (simp only: t length_pad6)
  have r: "rev [1..<Suc 6] = [6, 5, 4, 3, 2, 1]"
    by (simp add: upt_rec)
  show ?thesis
    unfolding re_f_def Let_def n r
    by (simp add: t digits_value_pad6 [OF assms])
qed

lemma first_step:
  assumes "\<exists>tl. step d st = x # tl" and "\<exists>tl. matches ds x = y # tl"
  shows "\<exists>tl. matches (d # ds) st = y # tl"
  using assms by auto

lemma first_nil: "\<exists>tl. matches [] st = st # tl"
  by simp

lemma step_Lit: "\<exists>tl. step (Lit c) (g, c # s) = (g, s) # tl"
  by simp

lemma step_Ws:
  assumes "s \<noteq> []" and "\<not> is_space (hd s)"
  shows "\<exists>tl. step Ws (g, 32 # s) = (g, s) # tl"
proof -
  from assms obtain c r where s: "s = c # r" and c: "\<not> is_space c" by (cases s) auto
  have "is_space 32" by (simp add: is_space_def)
  with c have "takeWhile is_space (32 # s) = [32]" by (simp add: s)
  then have "re_ws (32 # s) = [s]"
    by (simp add: re_ws_def)
  then show ?thesis by simp
qed

lemma step_DY: "y < 10000 \<Longrightarrow> \<exists>tl. step DY (g, pad4 y @ s) = (g\<lparr>year := y\<rparr>, s) # tl"
  by (simp add: re_Y_pad4)

lemma step_Dm: "1 \<le> m \<Longrightarrow> m \<le> 12 \<Longrightarrow> \<exists>tl. step Dm (g, pad2 m @ s) = (g\<lparr>month := m\<rparr>, s) # tl"
  using re_m_pad2 [of m s] by auto

lemma step_Dd: "1 \<le> d \<Longrightarrow> d \<le> 31 \<Longrightarrow> \<exists>tl. step Dd (g, pad2 d @ s) = (g\<lparr>day := d\<rparr>, s) # tl"
  using re_d_pad2 [of d s] by auto

lemma step_DH: "H \<le> 23 \<Longrightarrow> \<exists>tl. step DH (g, pad2 H @ s) = (g\<lparr>hour := H\<rparr>, s) # tl"
  using re_H_pad2 [of H s] by auto

lemma step_DM: "M \<le> 59 \<Longrightarrow> \<exists>tl. step DM (g, pad2 M @ s) = (g\<lparr>minute := M\<rparr>, s) # tl"
  using re_M_pad2 [of M s] by auto

lemma step_DS: "S \<le> 59 \<Longrightarrow> \<exists>tl. step DS (g, pad2 S @ s) = (g\<lparr>second := S\<rparr>, s) # tl"
  using re_S_pad2 [of S s] by auto

lemma step_Df: "f < 1000000 \<Longrightarrow> \<exists>tl. step Df (g, pad6 f @ s) = (g\<lparr>fraction := f\<rparr>, s) # tl"
  using re_f_pad6 [of f s] by auto

lemma datetime_new_bounds:
  assumes "datetime_new y m d H M S f = Some t"
  shows "t = (y, m, d, H, M, S, f)" "1 \<le> y" "y < 10000" "1 \<le> m" "m \<le> 12" "1 \<le> d" "d \<le> 31"
    "H \<le> 23" "M \<le> 59" "S \<le> 59" "f < 1000000"
proof -
  have dm: "days_in_month y m \<le> 31" by (simp add: days_in_month_def)
  from assms have *: "t = (y, m, d, H, M, S, f)" "1 \<le> y" "y \<le> 9999" "1 \<le> m" "m \<le> 12" "1 \<le> d"
    "d \<le> days_in_month y m" "H \<le> 23" "M \<le> 59" "S \<le> 59" "f \<le> 999999"
    by (auto simp: datetime_new_def split: if_splits)
  with dm show "t = (y, m, d, H, M, S, f)" "1 \<le> y" "y < 10000" "1 \<le> m" "m \<le> 12" "1 \<le> d" "d \<le> 31"
    "H \<le> 23" "M \<le> 59" "S \<le> 59" "f < 1000000"
    by simp_all
qed

lemma strptime_first:
  assumes "\<exists>tl. matches fmt (defaults, s) = (g, []) # tl"
  shows "strptime s fmt = datetime_new (year g) (month g) (day g) (hour g) (minute g) (second g) (fraction g)"
  using assms by (auto simp: strptime_def)

lemma strptime_date:
  assumes v: "datetime_new y m d 0 0 0 0 = Some t"
  shows "strptime (pad4 y @ 45 # pad2 m @ 45 # pad2 d) [DY, Lit 45, Dm, Lit 45, Dd] = Some t"
proof -
  note b = datetime_new_bounds [OF v]
  have "\<exists>tl. matches [DY, Lit 45, Dm, Lit 45, Dd] (defaults, pad4 y @ 45 # pad2 m @ 45 # pad2 d @ [])
      = (defaults\<lparr>year := y, month := m, day := d\<rparr>, []) # tl"
    by (intro first_step [OF step_DY] first_step [OF step_Lit] first_step [OF step_Dm]
        first_step [OF step_Dd] first_nil b)
  from strptime_first [of _ "pad4 y @ 45 # pad2 m @ 45 # pad2 d" "defaults\<lparr>year := y, month := m, day := d\<rparr>"] this v
  show ?thesis
    by (simp add: defaults_def)
qed

subsection \<open>Formats that cannot match\<close>

text \<open>
  Every directive consumes at least one character, so a format with a literal that the text
  does not contain, or with more directives than the text has characters, has no match.
\<close>

lemma asc_eats: "(v, r) \<in> set (asc lo hi s) \<Longrightarrow> \<exists>pre. pre \<noteq> [] \<and> s = pre @ r"
  by (cases s) (auto split: if_splits)

lemma dig_eats: "(v, r) \<in> set (dig s) \<Longrightarrow> \<exists>pre. pre \<noteq> [] \<and> s = pre @ r"
  by (cases s) (auto split: option.splits)

lemma two_eats:
  assumes p: "\<And>s v r. (v, r) \<in> set (p s) \<Longrightarrow> \<exists>pre. pre \<noteq> [] \<and> s = pre @ r"
    and q: "\<And>s v r. (v, r) \<in> set (q s) \<Longrightarrow> \<exists>pre. pre \<noteq> [] \<and> s = pre @ r"
    and m: "(v, r) \<in> set (two p q s)"
  shows "\<exists>pre. pre \<noteq> [] \<and> s = pre @ r"
proof -
  from m obtain a s1 b where a: "(a, s1) \<in> set (p s)" and b: "(b, r) \<in> set (q s1)"
    by (auto simp: two_def)
  from p [OF a] obtain pre1 where "pre1 \<noteq> []" "s = pre1 @ s1" by blast
  moreover from q [OF b] obtain pre2 where "s1 = pre2 @ r" by blast
  ultimately have "pre1 @ pre2 \<noteq> []" "s = (pre1 @ pre2) @ r" by simp_all
  then show ?thesis by blast
qed

lemma two_asc_asc:
  assumes "(v, r) \<in> set (two (asc a b) (asc c d) s)"
  shows "\<exists>pre. pre \<noteq> [] \<and> s = pre @ r"
  by (rule two_eats [of "asc a b" "asc c d", OF asc_eats asc_eats assms])

lemma two_asc_dig:
  assumes "(v, r) \<in> set (two (asc a b) dig s)"
  shows "\<exists>pre. pre \<noteq> [] \<and> s = pre @ r"
  by (rule two_eats [of "asc a b" dig, OF asc_eats dig_eats assms])

lemma two_dig_dig:
  assumes "(v, r) \<in> set (two dig dig s)"
  shows "\<exists>pre. pre \<noteq> [] \<and> s = pre @ r"
  by (rule two_eats [of dig dig, OF dig_eats dig_eats assms])

lemma re_Y_eats: "(v, r) \<in> set (re_Y s) \<Longrightarrow> \<exists>pre. pre \<noteq> [] \<and> s = pre @ r"
proof -
  assume "(v, r) \<in> set (re_Y s)"
  then obtain a s1 b where a: "(a, s1) \<in> set (two dig dig s)" and b: "(b, r) \<in> set (two dig dig s1)"
    by (auto simp: re_Y_def)
  from two_dig_dig [OF a] obtain pre1 where "pre1 \<noteq> []" "s = pre1 @ s1" by blast
  moreover from two_dig_dig [OF b] obtain pre2 where "s1 = pre2 @ r" by blast
  ultimately have "pre1 @ pre2 \<noteq> []" "s = (pre1 @ pre2) @ r" by simp_all
  then show ?thesis by blast
qed

lemma re_m_eats: "(v, r) \<in> set (re_m s) \<Longrightarrow> \<exists>pre. pre \<noteq> [] \<and> s = pre @ r"
  by (auto simp: re_m_def dest: two_asc_asc asc_eats)

lemma re_d_eats: "(v, r) \<in> set (re_d s) \<Longrightarrow> \<exists>pre. pre \<noteq> [] \<and> s = pre @ r"
proof -
  assume m: "(v, r) \<in> set (re_d s)"
  have sp: "\<exists>pre. pre \<noteq> [] \<and> s = pre @ r"
    if "(v, r) \<in> set (case s of [] \<Rightarrow> [] | c # s1 \<Rightarrow> if c = 32 then asc 1 9 s1 else [])"
  proof -
    from that obtain s1 where s: "s = 32 # s1" and "(v, r) \<in> set (asc 1 9 s1)"
      by (cases s) (auto split: if_splits)
    from asc_eats [OF this(2)] obtain pre where "s1 = pre @ r" by blast
    with s have "s = (32 # pre) @ r" by simp
    then show ?thesis by blast
  qed
  from m show ?thesis
    unfolding re_d_def set_append Un_iff
    by (elim disjE) (auto dest: two_asc_asc two_asc_dig asc_eats sp)
qed

lemma re_H_eats: "(v, r) \<in> set (re_H s) \<Longrightarrow> \<exists>pre. pre \<noteq> [] \<and> s = pre @ r"
  by (auto simp: re_H_def dest: two_asc_asc two_asc_dig dig_eats)

lemma re_M_eats: "(v, r) \<in> set (re_M s) \<Longrightarrow> \<exists>pre. pre \<noteq> [] \<and> s = pre @ r"
  by (auto simp: re_M_def dest: two_asc_dig dig_eats)

lemma re_S_eats: "(v, r) \<in> set (re_S s) \<Longrightarrow> \<exists>pre. pre \<noteq> [] \<and> s = pre @ r"
  by (auto simp: re_S_def dest: two_asc_asc two_asc_dig dig_eats)

lemma drop_eats: "1 \<le> k \<Longrightarrow> k \<le> length s \<Longrightarrow> \<exists>pre. pre \<noteq> [] \<and> s = pre @ drop k s"
proof -
  assume "1 \<le> k" "k \<le> length s"
  then have "take k s \<noteq> []" by auto
  moreover have "s = take k s @ drop k s" by simp
  ultimately show ?thesis by blast
qed

lemma re_f_eats: "(v, r) \<in> set (re_f s) \<Longrightarrow> \<exists>pre. pre \<noteq> [] \<and> s = pre @ r"
proof -
  assume "(v, r) \<in> set (re_f s)"
  then obtain k where k: "1 \<le> k" "k \<le> length (takeWhile is_ascii_digit (take 6 s))" and r: "r = drop k s"
    by (auto simp: re_f_def Let_def)
  have "length (takeWhile is_ascii_digit (take 6 s)) \<le> length (take 6 s)"
    by (rule length_takeWhile_le)
  with k(2) have "k \<le> length s" by simp
  from drop_eats [OF k(1) this] r show ?thesis by simp
qed

lemma re_ws_eats: "r \<in> set (re_ws s) \<Longrightarrow> \<exists>pre. pre \<noteq> [] \<and> s = pre @ r"
proof -
  assume "r \<in> set (re_ws s)"
  then obtain k where k: "1 \<le> k" "k \<le> length (takeWhile is_space s)" and r: "r = drop k s"
    by (auto simp: re_ws_def Let_def)
  have "length (takeWhile is_space s) \<le> length s"
    by (rule length_takeWhile_le)
  with k(2) have "k \<le> length s" by simp
  from drop_eats [OF k(1) this] r show ?thesis by simp
qed

lemma step_eats:
  assumes "(g', r) \<in> set (step d (g, s))"
  shows "\<exists>pre. pre \<noteq> [] \<and> s = pre @ r"
proof (cases d)
  case (Lit c)
  with assms have "s = [c] @ r" by (cases s) (auto split: if_splits)
  then show ?thesis by blast
qed (use assms in \<open>auto dest: re_Y_eats re_m_eats re_d_eats re_H_eats re_M_eats re_S_eats re_f_eats re_ws_eats\<close>)

lemma matches_blocked:
  assumes "d0 \<in> set fmt" and "\<And>g pre r. s = pre @ r \<Longrightarrow> step d0 (g, r) = []"
  shows "matches fmt (g, s) = []"
  using assms
proof (induction fmt arbitrary: g s)
  case Nil
  then show ?case by simp
next
  case (Cons d ds)
  show ?case
  proof (cases "d = d0")
    case True
    with Cons.prems(2) [of "[]" s g] show ?thesis by simp
  next
    case False
    with Cons.prems(1) have in_ds: "d0 \<in> set ds" by simp
    have "matches ds st = []" if "st \<in> set (step d (g, s))" for st
    proof -
      obtain g' r where st: "st = (g', r)" by (cases st)
      from step_eats [of g' r d g s] that st obtain pre where s: "s = pre @ r" by blast
      have "step d0 (g'', r') = []" if "r = pre' @ r'" for g'' pre' r'
        using Cons.prems(2) [of "pre @ pre'" r' g''] s that by simp
      from Cons.IH [OF in_ds this] st show ?thesis by simp
    qed
    then show ?thesis by (simp add: concat_eq_Nil_conv)
  qed
qed

lemma matches_length:
  "(g', r) \<in> set (matches fmt (g, s)) \<Longrightarrow> length r + length fmt \<le> length s"
proof (induction fmt arbitrary: g s)
  case Nil
  then show ?case by simp
next
  case (Cons d ds)
  from Cons.prems obtain g1 r1 where 1: "(g1, r1) \<in> set (step d (g, s))"
    and 2: "(g', r) \<in> set (matches ds (g1, r1))"
    by auto
  from step_eats [OF 1] have "length r1 < length s" by auto
  with Cons.IH [OF 2] show ?case by simp
qed

lemma Lit_blocked: "c \<notin> set s \<Longrightarrow> s = pre @ r \<Longrightarrow> step (Lit c) (g, r) = []"
  by (cases r) auto

lemma Ws_blocked: "\<forall>c \<in> set s. \<not> is_space c \<Longrightarrow> s = pre @ r \<Longrightarrow> step Ws (g, r) = []"
  by (cases r) (auto simp: re_ws_def)

lemma strptime_no_match: "matches fmt (defaults, s) = [] \<Longrightarrow> strptime s fmt = None"
  by (simp add: strptime_def)

subsection \<open>The five renderings\<close>

lemma not_space_digit: "k < 10 \<Longrightarrow> \<not> is_space (48 + k)"
  by (simp add: is_space_def)

lemma pad2_range: "n < 100 \<Longrightarrow> c \<in> set (pad2 n) \<Longrightarrow> 48 \<le> c \<and> c \<le> 57"
  using pad2_ascii [of n] by (auto simp: is_ascii_digit_def)

lemma pad4_range: "n < 10000 \<Longrightarrow> c \<in> set (pad4 n) \<Longrightarrow> 48 \<le> c \<and> c \<le> 57"
proof -
  assume "n < 10000" and c: "c \<in> set (pad4 n)"
  then have 1: "n div 100 < 100" by simp
  have 2: "n mod 100 < 100" by simp
  from c have "c \<in> set (pad2 (n div 100)) \<or> c \<in> set (pad2 (n mod 100))"
    by (simp add: pad4_def)
  then show ?thesis using pad2_range [OF 1] pad2_range [OF 2] by blast
qed

lemma strip_id:
  assumes "s \<noteq> []" and "\<not> is_space (hd s)" and "\<not> is_space (last s)"
  shows "strip s = s"
proof -
  from assms(1,2) have 1: "dropWhile is_space s = s" by (cases s) auto
  from assms(1,3) have "\<not> is_space (hd (rev s))" by (simp add: hd_rev)
  with assms(1) have 2: "dropWhile is_space (rev s) = rev s" by (cases "rev s") auto
  show ?thesis by (simp add: strip_def 1 2)
qed

lemma hd_pad4: "hd (pad4 y @ s) = 48 + y div 100 div 10"
  by (simp add: pad4_def pad2_def)

lemma last_pad2: "last (s @ pad2 n) = 48 + n mod 10"
  by (simp add: pad2_def)

lemma last_pad6: "last (s @ pad6 n) = 48 + n mod 100 mod 10"
  by (simp add: pad6_def pad2_def)

lemma hd_pad2: "hd (pad2 n @ s) = 48 + n div 10"
  by (simp add: pad2_def)

text \<open>The five renderings are not touched by \<open>strip\<close>.\<close>

lemma strip_rendering:
  assumes "y < 10000"
  shows "strip (pad4 y @ s @ pad2 n) = pad4 y @ s @ pad2 n"
    and "strip (pad4 y @ s @ pad6 f) = pad4 y @ s @ pad6 f"
proof -
  from assms have h: "y div 100 div 10 < 10" by simp
  have l: "n mod 10 < 10" "f mod 100 mod 10 < 10" by simp_all
  show "strip (pad4 y @ s @ pad2 n) = pad4 y @ s @ pad2 n"
  proof (rule strip_id)
    show "pad4 y @ s @ pad2 n \<noteq> []" by (simp add: pad2_def)
    show "\<not> is_space (hd (pad4 y @ s @ pad2 n))"
      unfolding hd_pad4 by (rule not_space_digit [OF h])
    show "\<not> is_space (last (pad4 y @ s @ pad2 n))"
      using last_pad2 [of "pad4 y @ s" n] not_space_digit [OF l(1)] by simp
  qed
  show "strip (pad4 y @ s @ pad6 f) = pad4 y @ s @ pad6 f"
  proof (rule strip_id)
    show "pad4 y @ s @ pad6 f \<noteq> []" by (simp add: pad4_def pad2_def)
    show "\<not> is_space (hd (pad4 y @ s @ pad6 f))"
      unfolding hd_pad4 by (rule not_space_digit [OF h])
    show "\<not> is_space (last (pad4 y @ s @ pad6 f))"
      using last_pad6 [of "pad4 y @ s" f] not_space_digit [OF l(2)] by simp
  qed
qed

lemma strptime_iso_us:
  assumes v: "datetime_new y m d H M S f = Some t"
  shows "strptime (pad4 y @ 45 # pad2 m @ 45 # pad2 d @ 32 # pad2 H @ 58 # pad2 M @ 58 # pad2 S @ 46 # pad6 f)
           [DY, Lit 45, Dm, Lit 45, Dd, Ws, DH, Lit 58, DM, Lit 58, DS, Lit 46, Df] = Some t"
proof -
  note b = datetime_new_bounds [OF v]
  from b(8) have hH: "H div 10 < 10" by simp
  have ws: "pad2 H @ 58 # pad2 M @ 58 # pad2 S @ 46 # pad6 f @ [] \<noteq> []"
    "\<not> is_space (hd (pad2 H @ 58 # pad2 M @ 58 # pad2 S @ 46 # pad6 f @ []))"
    unfolding hd_pad2 by (simp add: pad2_def, rule not_space_digit [OF hH])
  have "\<exists>tl. matches [DY, Lit 45, Dm, Lit 45, Dd, Ws, DH, Lit 58, DM, Lit 58, DS, Lit 46, Df]
        (defaults, pad4 y @ 45 # pad2 m @ 45 # pad2 d @ 32 # pad2 H @ 58 # pad2 M @ 58 # pad2 S @ 46 # pad6 f @ [])
      = (defaults\<lparr>year := y, month := m, day := d, hour := H, minute := M, second := S, fraction := f\<rparr>, []) # tl"
    by (intro first_step [OF step_DY] first_step [OF step_Lit] first_step [OF step_Dm]
        first_step [OF step_Dd] first_step [OF step_Ws] first_step [OF step_DH]
        first_step [OF step_DM] first_step [OF step_DS] first_step [OF step_Df] first_nil b ws)
  from strptime_first [of _ _ "defaults\<lparr>year := y, month := m, day := d, hour := H, minute := M, second := S, fraction := f\<rparr>"] this v
  show ?thesis
    by (simp add: defaults_def)
qed

lemma strptime_iso_s:
  assumes v: "datetime_new y m d H M S 0 = Some t"
  shows "strptime (pad4 y @ 45 # pad2 m @ 45 # pad2 d @ 32 # pad2 H @ 58 # pad2 M @ 58 # pad2 S)
           [DY, Lit 45, Dm, Lit 45, Dd, Ws, DH, Lit 58, DM, Lit 58, DS] = Some t"
proof -
  note b = datetime_new_bounds [OF v]
  from b(8) have hH: "H div 10 < 10" by simp
  have ws: "pad2 H @ 58 # pad2 M @ 58 # pad2 S @ [] \<noteq> []"
    "\<not> is_space (hd (pad2 H @ 58 # pad2 M @ 58 # pad2 S @ []))"
    unfolding hd_pad2 by (simp add: pad2_def, rule not_space_digit [OF hH])
  have "\<exists>tl. matches [DY, Lit 45, Dm, Lit 45, Dd, Ws, DH, Lit 58, DM, Lit 58, DS]
        (defaults, pad4 y @ 45 # pad2 m @ 45 # pad2 d @ 32 # pad2 H @ 58 # pad2 M @ 58 # pad2 S @ [])
      = (defaults\<lparr>year := y, month := m, day := d, hour := H, minute := M, second := S\<rparr>, []) # tl"
    by (intro first_step [OF step_DY] first_step [OF step_Lit] first_step [OF step_Dm]
        first_step [OF step_Dd] first_step [OF step_Ws] first_step [OF step_DH]
        first_step [OF step_DM] first_step [OF step_DS] first_nil b ws)
  from strptime_first [of _ _ "defaults\<lparr>year := y, month := m, day := d, hour := H, minute := M, second := S\<rparr>"] this v
  show ?thesis
    by (simp add: defaults_def)
qed

lemma strptime_compact_s:
  assumes v: "datetime_new y m d H M S 0 = Some t"
  shows "strptime (pad4 y @ pad2 m @ pad2 d @ pad2 H @ pad2 M @ pad2 S) [DY, Dm, Dd, DH, DM, DS] = Some t"
proof -
  note b = datetime_new_bounds [OF v]
  have "\<exists>tl. matches [DY, Dm, Dd, DH, DM, DS]
        (defaults, pad4 y @ pad2 m @ pad2 d @ pad2 H @ pad2 M @ pad2 S @ [])
      = (defaults\<lparr>year := y, month := m, day := d, hour := H, minute := M, second := S\<rparr>, []) # tl"
    by (intro first_step [OF step_DY] first_step [OF step_Dm]
        first_step [OF step_Dd] first_step [OF step_DH]
        first_step [OF step_DM] first_step [OF step_DS] first_nil b)
  from strptime_first [of _ _ "defaults\<lparr>year := y, month := m, day := d, hour := H, minute := M, second := S\<rparr>"] this v
  show ?thesis
    by (simp add: defaults_def)
qed

lemma strptime_compact_d:
  assumes v: "datetime_new y m d 0 0 0 0 = Some t"
  shows "strptime (pad4 y @ pad2 m @ pad2 d) [DY, Dm, Dd] = Some t"
proof -
  note b = datetime_new_bounds [OF v]
  have "\<exists>tl. matches [DY, Dm, Dd] (defaults, pad4 y @ pad2 m @ pad2 d @ [])
      = (defaults\<lparr>year := y, month := m, day := d\<rparr>, []) # tl"
    by (intro first_step [OF step_DY] first_step [OF step_Dm] first_step [OF step_Dd] first_nil b)
  from strptime_first [of _ _ "defaults\<lparr>year := y, month := m, day := d\<rparr>"] this v
  show ?thesis
    by (simp add: defaults_def)
qed

lemma pad2_chars: "n < 100 \<Longrightarrow> set (pad2 n) \<subseteq> {48..57}"
  using pad2_range [of n] by auto

lemma pad4_chars: "n < 10000 \<Longrightarrow> set (pad4 n) \<subseteq> {48..57}"
  using pad4_range [of n] by auto

lemma digits_no_space: "c \<in> {48..57} \<Longrightarrow> \<not> is_space c"
  by (auto simp: is_space_def)

lemma blocked_by_Lit:
  assumes "Lit c \<in> set fmt" and "c \<notin> set s"
  shows "strptime s fmt = None"
  by (rule strptime_no_match, rule matches_blocked [OF assms(1)], rule Lit_blocked [OF assms(2)])

lemma blocked_by_Ws:
  assumes "Ws \<in> set fmt" and "\<forall>c \<in> set s. \<not> is_space c"
  shows "strptime s fmt = None"
  by (rule strptime_no_match, rule matches_blocked [OF assms(1)], rule Ws_blocked [OF assms(2)])

lemma blocked_by_length:
  assumes "y < 10000" and "length s < length fmt"
  shows "strptime (pad4 y @ s) (DY # fmt) = None"
proof -
  have "matches fmt (defaults\<lparr>year := y\<rparr>, s) = []"
  proof (rule ccontr)
    assume "matches fmt (defaults\<lparr>year := y\<rparr>, s) \<noteq> []"
    then obtain g r where "(g, r) \<in> set (matches fmt (defaults\<lparr>year := y\<rparr>, s))"
      by (cases "matches fmt (defaults\<lparr>year := y\<rparr>, s)") auto
    from matches_length [OF this] assms(2) show False by simp
  qed
  then have "matches (DY # fmt) (defaults, pad4 y @ s) = []"
    by (simp add: re_Y_pad4 [OF assms(1)])
  then show ?thesis by (rule strptime_no_match)
qed

text \<open>
  Round trip: a valid calendar instant written with zero-padded fields in any of the five
  formats is parsed back to that instant.
\<close>

lemma parse_dt_iso_us:
  assumes v: "datetime_new y m d H M S f = Some t"
  shows "parse_dt (pad4 y @ 45 # pad2 m @ 45 # pad2 d @ 32 # pad2 H @ 58 # pad2 M @ 58 # pad2 S @ 46 # pad6 f)
           = Some (y, m, d, H, M, S, f)"
proof -
  note b = datetime_new_bounds [OF v]
  let ?s = "pad4 y @ 45 # pad2 m @ 45 # pad2 d @ 32 # pad2 H @ 58 # pad2 M @ 58 # pad2 S @ 46 # pad6 f"
  have s: "strip ?s = ?s"
    using strip_rendering(2) [OF b(3), of "45 # pad2 m @ 45 # pad2 d @ 32 # pad2 H @ 58 # pad2 M @ 58 # pad2 S @ [46]" f]
    by simp
  have n: "?s \<noteq> []" by simp
  show ?thesis
    unfolding parse_dt_def s fmts_def using n strptime_iso_us [OF v] b(1) by simp
qed

lemma parse_dt_iso_s:
  assumes v: "datetime_new y m d H M S 0 = Some t"
  shows "parse_dt (pad4 y @ 45 # pad2 m @ 45 # pad2 d @ 32 # pad2 H @ 58 # pad2 M @ 58 # pad2 S)
           = Some (y, m, d, H, M, S, 0)"
proof -
  note b = datetime_new_bounds [OF v]
  let ?s = "pad4 y @ 45 # pad2 m @ 45 # pad2 d @ 32 # pad2 H @ 58 # pad2 M @ 58 # pad2 S"
  have s: "strip ?s = ?s"
    using strip_rendering(1) [OF b(3), of "45 # pad2 m @ 45 # pad2 d @ 32 # pad2 H @ 58 # pad2 M @ [58]" S]
    by simp
  have n: "?s \<noteq> []" by simp
  from b have r: "m < 100" "d < 100" "H < 100" "M < 100" "S < 100" by simp_all
  have "46 \<notin> set ?s"
    using pad4_chars [OF b(3)] pad2_chars [OF r(1)] pad2_chars [OF r(2)] pad2_chars [OF r(3)]
      pad2_chars [OF r(4)] pad2_chars [OF r(5)] by auto
  then have 1: "strptime ?s [DY, Lit 45, Dm, Lit 45, Dd, Ws, DH, Lit 58, DM, Lit 58, DS, Lit 46, Df] = None"
    by (intro blocked_by_Lit [of 46]) simp_all
  show ?thesis
    unfolding parse_dt_def s fmts_def using n 1 strptime_iso_s [OF v] b(1) by simp
qed

lemma parse_dt_iso_d:
  assumes v: "datetime_new y m d 0 0 0 0 = Some t"
  shows "parse_dt (pad4 y @ 45 # pad2 m @ 45 # pad2 d) = Some (y, m, d, 0, 0, 0, 0)"
proof -
  note b = datetime_new_bounds [OF v]
  let ?s = "pad4 y @ 45 # pad2 m @ 45 # pad2 d"
  have s: "strip ?s = ?s"
    using strip_rendering(1) [OF b(3), of "45 # pad2 m @ [45]" d] by simp
  have n: "?s \<noteq> []" by simp
  from b have r: "m < 100" "d < 100" by simp_all
  have "\<forall>c \<in> set ?s. \<not> is_space c"
    using pad4_chars [OF b(3)] pad2_chars [OF r(1)] pad2_chars [OF r(2)]
    by (auto simp: is_space_def)
  then have 1: "strptime ?s [DY, Lit 45, Dm, Lit 45, Dd, Ws, DH, Lit 58, DM, Lit 58, DS, Lit 46, Df] = None"
    and 2: "strptime ?s [DY, Lit 45, Dm, Lit 45, Dd, Ws, DH, Lit 58, DM, Lit 58, DS] = None"
    by (intro blocked_by_Ws; simp)+
  show ?thesis
    unfolding parse_dt_def s fmts_def using n 1 2 strptime_date [OF v] b(1) by simp
qed

lemma parse_dt_compact_s:
  assumes v: "datetime_new y m d H M S 0 = Some t"
  shows "parse_dt (pad4 y @ pad2 m @ pad2 d @ pad2 H @ pad2 M @ pad2 S) = Some (y, m, d, H, M, S, 0)"
proof -
  note b = datetime_new_bounds [OF v]
  let ?s = "pad4 y @ pad2 m @ pad2 d @ pad2 H @ pad2 M @ pad2 S"
  have s: "strip ?s = ?s"
    using strip_rendering(1) [OF b(3), of "pad2 m @ pad2 d @ pad2 H @ pad2 M" S] by simp
  have n: "?s \<noteq> []" by (simp add: pad2_def)
  from b have r: "m < 100" "d < 100" "H < 100" "M < 100" "S < 100" by simp_all
  have "45 \<notin> set ?s"
    using pad4_chars [OF b(3)] pad2_chars [OF r(1)] pad2_chars [OF r(2)] pad2_chars [OF r(3)]
      pad2_chars [OF r(4)] pad2_chars [OF r(5)] by auto
  then have 1: "strptime ?s [DY, Lit 45, Dm, Lit 45, Dd, Ws, DH, Lit 58, DM, Lit 58, DS, Lit 46, Df] = None"
    and 2: "strptime ?s [DY, Lit 45, Dm, Lit 45, Dd, Ws, DH, Lit 58, DM, Lit 58, DS] = None"
    and 3: "strptime ?s [DY, Lit 45, Dm, Lit 45, Dd] = None"
    by (intro blocked_by_Lit [of 45]; simp)+
  show ?thesis
    unfolding parse_dt_def s fmts_def using n 1 2 3 strptime_compact_s [OF v] b(1) by simp
qed

lemma parse_dt_compact_d:
  assumes v: "datetime_new y m d 0 0 0 0 = Some t"
  shows "parse_dt (pad4 y @ pad2 m @ pad2 d) = Some (y, m, d, 0, 0, 0, 0)"
proof -
  note b = datetime_new_bounds [OF v]
  let ?s = "pad4 y @ pad2 m @ pad2 d"
  have s: "strip ?s = ?s"
    using strip_rendering(1) [OF b(3), of "pad2 m" d] by simp
  have n: "?s \<noteq> []" by (simp add: pad2_def)
  from b have r: "m < 100" "d < 100" by simp_all
  have "45 \<notin> set ?s"
    using pad4_chars [OF b(3)] pad2_chars [OF r(1)] pad2_chars [OF r(2)] by auto
  then have 1: "strptime ?s [DY, Lit 45, Dm, Lit 45, Dd, Ws, DH, Lit 58, DM, Lit 58, DS, Lit 46, Df] = None"
    and 2: "strptime ?s [DY, Lit 45, Dm, Lit 45, Dd, Ws, DH, Lit 58, DM, Lit 58, DS] = None"
    and 3: "strptime ?s [DY, Lit 45, Dm, Lit 45, Dd] = None"
    by (intro blocked_by_Lit [of 45]; simp)+
  have 4: "strptime ?s [DY, Dm, Dd, DH, DM, DS] = None"
    using blocked_by_length [OF b(3), of "pad2 m @ pad2 d" "[Dm, Dd, DH, DM, DS]"] by simp
  show ?thesis
    unfolding parse_dt_def s fmts_def using n 1 2 3 4 strptime_compact_d [OF v] b(1) by simp
qed

section \<open>Properties of the sort key\<close>








section \<open>Properties of the digest sections\<close>

lemma digits_value_snoc: "digits_value (ds @ [c]) = 10 * digits_value ds + (c - 48)"
  by (simp add: digits_value_def)

lemma digits_value_digits_of: "digits_value (digits_of n) = n"
proof (induction n rule: digits_of.induct)
  case (1 n)
  show ?case
  proof (cases "n < 10")
    case True
    then show ?thesis
      by (subst digits_of.simps) (simp add: digits_value_def)
  next
    case False
    with "1.IH" have "digits_value (digits_of (n div 10)) = n div 10" by simp
    with False show ?thesis
      by (subst digits_of.simps) (simp add: digits_value_snoc)
  qed
qed

text \<open>
  C10: the first four lines of a section are the title, an empty line, the count line with
  the decimal digits of the full length of the list, and an empty line. For a non-empty list
  the lines after them are \<open>line_for\<close> of the first ten records in sorted order, so there are
  \<open>min 10 N\<close> of them, and for more than ten records the count exceeds the ten lines
  rendered. For the empty list the only line after them is the fixed sentence.
\<close>

theorem section_count_and_lines:
  "take 4 (section_out title rows) = [title, [], [52509, 32] @ str_int (int (length rows)) @ [44148], []]
   \<and> digits_value (str_int (int (length rows))) = length rows
   \<and> (rows \<noteq> [] \<longrightarrow>
        drop 4 (section_out title rows) = map line_for (take 10 (sorted_by sort_key_row rows))
        \<and> length (drop 4 (section_out title rows)) = min 10 (length rows))
   \<and> (length rows > 10 \<longrightarrow>
        length (drop 4 (section_out title rows)) = 10
        \<and> length rows > length (drop 4 (section_out title rows)))
   \<and> (rows = [] \<longrightarrow> section_out title rows = [title, [], [52509, 32] @ u ''0'' @ [44148], [], no_items])
   \<and> section_text title rows = join [10] (section_out title rows)"
proof -
  let ?out = "section_out title rows"
  have l: "length (sorted_by sort_key_row rows) = length rows"
    by (simp add: sorted_by_def)
  have a: "take 4 ?out = [title, [], [52509, 32] @ str_int (int (length rows)) @ [44148], []]"
    by (simp add: section_out_def Let_def count_line_def)
  have b: "digits_value (str_int (int (length rows))) = length rows"
    by (simp add: str_int_def digits_value_digits_of)
  have c: "drop 4 ?out = map line_for (take 10 (sorted_by sort_key_row rows))
        \<and> length (drop 4 ?out) = min 10 (length rows)" if "rows \<noteq> []"
    using that by (simp add: section_out_def Let_def l min.commute)
  have d: "length (drop 4 ?out) = 10 \<and> length rows > length (drop 4 ?out)" if "length rows > 10"
  proof -
    from that have "rows \<noteq> []" by auto
    from c [OF this] have "length (drop 4 ?out) = min 10 (length rows)" by (rule conjunct2)
    with that show ?thesis by arith
  qed
  have z: "str_int (int 0) = u ''0''"
    by (simp add: str_int_def digits_of.simps u_def)
  have e: "?out = [title, [], [52509, 32] @ u ''0'' @ [44148], [], no_items]" if "rows = []"
    using that z by (simp add: section_out_def count_line_def)
  have f: "section_text title rows = join [10] ?out"
    by (simp add: section_text_def)
  from a b c d e f show ?thesis by blast
qed

text \<open>C10 at a list of eleven records and at the empty list.\<close>

theorem section_count_and_lines_witness:
  "length (drop 4 (section_out title_v12 (replicate 11 Map.empty))) = 10
   \<and> section_out title_v12 (replicate 11 Map.empty) ! 2 = [52509, 32] @ u ''11'' @ [44148]
   \<and> section_out title_v12 [] = [title_v12, [], [52509, 32] @ u ''0'' @ [44148], [], no_items]"
proof -
  have n: "length (replicate 11 (Map.empty :: row)) > 10" by simp
  have s: "str_int (int (length (replicate 11 (Map.empty :: row)))) = u ''11''"
    by (simp add: str_int_def digits_of.simps u_def)
  have "section_out title_v12 (replicate 11 Map.empty) ! 2
      = take 4 (section_out title_v12 (replicate 11 Map.empty)) ! 2"
    by simp
  with section_count_and_lines [of title_v12 "replicate 11 Map.empty"] s
  have a: "section_out title_v12 (replicate 11 Map.empty) ! 2 = [52509, 32] @ u ''11'' @ [44148]"
    by simp
  from section_count_and_lines [of title_v12 "replicate 11 Map.empty"] n
  have b: "length (drop 4 (section_out title_v12 (replicate 11 Map.empty))) = 10"
    by blast
  from section_count_and_lines [of title_v12 "[]"]
  have c: "section_out title_v12 [] = [title_v12, [], [52509, 32] @ u ''0'' @ [44148], [], no_items]"
    by blast
  from a b c show ?thesis by blast
qed

section \<open>Properties of the page fetch\<close>

text \<open>One turn of the retry loop: a retried failure, a failure on the last attempt, any other outcome.\<close>

lemma fetch_attempts_retry:
  assumes "a < 3" and "spec_retryable (net (length (sent w)) url)"
  shows "\<exists>le'. fetch_attempts net url a b le w =
           fetch_attempts net url (a + 1) (b * 2) le' (w\<lparr>sent := sent w @ [url], slept := slept w @ [b]\<rparr>)"
  using assms
  by (subst fetch_attempts.simps)
     (auto simp: spec_retryable_def MAX_RETRIES_def Let_def split: response.splits option.splits)

lemma fetch_attempts_last:
  assumes "a = 3" and "spec_retryable (net (length (sent w)) url)"
  shows "\<exists>e. fetch_attempts net url a b le w = (Inl e, w\<lparr>sent := sent w @ [url]\<rparr>)"
  using assms
  by (subst fetch_attempts.simps)
     (auto simp: spec_retryable_def MAX_RETRIES_def Let_def split: response.splits option.splits)

lemma fetch_attempts_final:
  assumes "a \<le> 3" and "\<not> spec_retryable (net (length (sent w)) url)"
  shows "snd (fetch_attempts net url a b le w) = w\<lparr>sent := sent w @ [url]\<rparr>
     \<and> (\<forall>st d. net (length (sent w)) url = Http st (Some d) \<and> 200 \<le> st \<and> st < 300
           \<longrightarrow> fst (fetch_attempts net url a b le w) = Inr d)
     \<and> (\<forall>st body. net (length (sent w)) url = Http st body \<and> \<not> (200 \<le> st \<and> st < 300) \<and> \<not> (500 \<le> st \<and> st < 600)
           \<longrightarrow> fst (fetch_attempts net url a b le w) = Inl (HttpError st))
     \<and> (net (length (sent w)) url = OtherException \<longrightarrow> fst (fetch_attempts net url a b le w) = Inl Raised)"
  using assms
  by (subst (1 2 3 4) fetch_attempts.simps)
     (auto simp: spec_retryable_def MAX_RETRIES_def Let_def split: response.splits option.splits)

lemma backoff_list:
  "b # map (\<lambda>i. (b * 2) * 2 ^ i) [0..<m] = map (\<lambda>i. b * 2 ^ i) [0..<Suc m]" for b :: nat
proof -
  have "[0..<Suc m] = 0 # map Suc [0..<m]"
    by (simp add: upt_conv_Cons map_Suc_upt del: upt_Suc)
  then show ?thesis by (simp add: comp_def del: upt_Suc)
qed

text \<open>
  The loop from attempt \<open>a\<close> on makes some number \<open>k\<close> of requests, at most \<open>4 - a\<close>; all but
  the last met a failure that is retried, each followed by a sleep, the back-off doubling.
\<close>

lemma fetch_attempts_char:
  assumes "1 \<le> a" and "a \<le> 3"
  shows "\<exists>k. 1 \<le> k \<and> int k \<le> 4 - a
      \<and> snd (fetch_attempts net url a b le w)
          = w\<lparr>sent := sent w @ replicate k url, slept := slept w @ map (\<lambda>i. b * 2 ^ i) [0..<k - 1]\<rparr>
      \<and> (\<forall>i < k - 1. spec_retryable (net (length (sent w) + i) url))
      \<and> (spec_retryable (net (length (sent w) + (k - 1)) url)
            \<longrightarrow> a + int k - 1 = 3 \<and> isl (fst (fetch_attempts net url a b le w)))
      \<and> (\<forall>st d. net (length (sent w) + (k - 1)) url = Http st (Some d) \<and> 200 \<le> st \<and> st < 300
            \<longrightarrow> fst (fetch_attempts net url a b le w) = Inr d)
      \<and> (\<forall>st body. net (length (sent w) + (k - 1)) url = Http st body
              \<and> \<not> (200 \<le> st \<and> st < 300) \<and> \<not> (500 \<le> st \<and> st < 600)
            \<longrightarrow> fst (fetch_attempts net url a b le w) = Inl (HttpError st))
      \<and> (net (length (sent w) + (k - 1)) url = OtherException
            \<longrightarrow> fst (fetch_attempts net url a b le w) = Inl Raised)"
  using assms
proof (induction "nat (3 - a)" arbitrary: a b le w)
  case 0
  then have a3: "a = 3" by simp
  let ?r = "net (length (sent w)) url"
  show ?case
  proof (cases "spec_retryable ?r")
    case True
    from fetch_attempts_last [where net = net and w = w and url = url and b = b and le = le, OF a3 True]
    obtain e where e: "fetch_attempts net url a b le w = (Inl e, w\<lparr>sent := sent w @ [url]\<rparr>)" ..
    from True have n1: "\<And>st d. ?r \<noteq> Http st (Some d) \<or> \<not> (200 \<le> st \<and> st < 300)"
      and n2: "\<And>st body. ?r = Http st body \<Longrightarrow> (200 \<le> st \<and> st < 300) \<or> (500 \<le> st \<and> st < 600)"
      and n3: "?r \<noteq> OtherException"
      by (auto simp: spec_retryable_def split: response.splits)
    show ?thesis
      using a3 e n1 n2 n3 by (intro exI [of _ 1]) auto
  next
    case False
    from fetch_attempts_final [where net = net and w = w and url = url and b = b and le = le, OF "0.prems"(2) False] False a3
    show ?thesis
      by (intro exI [of _ 1]) auto
  qed
next
  case (Suc m)
  then have a: "a < 3" by simp
  let ?r = "net (length (sent w)) url"
  show ?case
  proof (cases "spec_retryable ?r")
    case False
    from fetch_attempts_final [where net = net and w = w and url = url and b = b and le = le, OF Suc.prems(2) False] False a
    show ?thesis
      by (intro exI [of _ 1]) auto
  next
    case True
    let ?w1 = "w\<lparr>sent := sent w @ [url], slept := slept w @ [b]\<rparr>"
    from fetch_attempts_retry [where net = net and w = w and url = url and b = b and le = le, OF a True]
    obtain le' where eq: "fetch_attempts net url a b le w = fetch_attempts net url (a + 1) (b * 2) le' ?w1" ..
    have m: "m = nat (3 - (a + 1))" using Suc.hyps(2) by simp
    have p: "1 \<le> a + 1" "a + 1 \<le> 3" using Suc.prems a by simp_all
    from Suc.hyps(1) [OF m p, of "b * 2" le' ?w1]
    obtain k where k: "1 \<le> k" "int k \<le> 4 - (a + 1)"
      and s: "snd (fetch_attempts net url (a + 1) (b * 2) le' ?w1)
          = ?w1\<lparr>sent := sent ?w1 @ replicate k url,
                 slept := slept ?w1 @ map (\<lambda>i. (b * 2) * 2 ^ i) [0..<k - 1]\<rparr>"
      and r: "\<forall>i < k - 1. spec_retryable (net (length (sent ?w1) + i) url)"
      and l1: "spec_retryable (net (length (sent ?w1) + (k - 1)) url)
            \<longrightarrow> (a + 1) + int k - 1 = 3 \<and> isl (fst (fetch_attempts net url (a + 1) (b * 2) le' ?w1))"
      and l2: "\<forall>st d. net (length (sent ?w1) + (k - 1)) url = Http st (Some d) \<and> 200 \<le> st \<and> st < 300
            \<longrightarrow> fst (fetch_attempts net url (a + 1) (b * 2) le' ?w1) = Inr d"
      and l3: "\<forall>st body. net (length (sent ?w1) + (k - 1)) url = Http st body
              \<and> \<not> (200 \<le> st \<and> st < 300) \<and> \<not> (500 \<le> st \<and> st < 600)
            \<longrightarrow> fst (fetch_attempts net url (a + 1) (b * 2) le' ?w1) = Inl (HttpError st)"
      and l4: "net (length (sent ?w1) + (k - 1)) url = OtherException
            \<longrightarrow> fst (fetch_attempts net url (a + 1) (b * 2) le' ?w1) = Inl Raised"
      by blast
    have idx: "length (sent ?w1) + (k - 1) = length (sent w) + (Suc k - 1)"
      using k(1) by simp
    have sl: "slept w @ [b] @ map (\<lambda>i. (b * 2) * 2 ^ i) [0..<k - 1] = slept w @ map (\<lambda>i. b * 2 ^ i) [0..<Suc k - 1]"
      using k(1) backoff_list [of b "k - 1"] by simp
    have snd': "snd (fetch_attempts net url a b le w)
          = w\<lparr>sent := sent w @ replicate (Suc k) url, slept := slept w @ map (\<lambda>i. b * 2 ^ i) [0..<Suc k - 1]\<rparr>"
      using s sl by (simp add: eq replicate_append_same del: upt_Suc)
    have r': "\<forall>i < Suc k - 1. spec_retryable (net (length (sent w) + i) url)"
    proof (intro allI impI)
      fix i assume i: "i < Suc k - 1"
      show "spec_retryable (net (length (sent w) + i) url)"
      proof (cases i)
        case 0
        with True show ?thesis by simp
      next
        case (Suc j)
        with i have "j < k - 1" by simp
        with r have "spec_retryable (net (length (sent ?w1) + j) url)" by blast
        with Suc show ?thesis by simp
      qed
    qed
    show ?thesis
    proof (intro exI [of _ "Suc k"] conjI)
      show "1 \<le> Suc k" by simp
      show "int (Suc k) \<le> 4 - a" using k(2) by simp
      show "snd (fetch_attempts net url a b le w)
          = w\<lparr>sent := sent w @ replicate (Suc k) url, slept := slept w @ map (\<lambda>i. b * 2 ^ i) [0..<Suc k - 1]\<rparr>"
        by (rule snd')
      show "\<forall>i < Suc k - 1. spec_retryable (net (length (sent w) + i) url)" by (rule r')
      show "spec_retryable (net (length (sent w) + (Suc k - 1)) url)
            \<longrightarrow> a + int (Suc k) - 1 = 3 \<and> isl (fst (fetch_attempts net url a b le w))"
        using l1 unfolding idx eq by simp
      show "\<forall>st d. net (length (sent w) + (Suc k - 1)) url = Http st (Some d) \<and> 200 \<le> st \<and> st < 300
            \<longrightarrow> fst (fetch_attempts net url a b le w) = Inr d"
        using l2 unfolding idx eq by simp
      show "\<forall>st body. net (length (sent w) + (Suc k - 1)) url = Http st body
              \<and> \<not> (200 \<le> st \<and> st < 300) \<and> \<not> (500 \<le> st \<and> st < 600)
            \<longrightarrow> fst (fetch_attempts net url a b le w) = Inl (HttpError st)"
        using l3 unfolding idx eq by simp
      show "net (length (sent w) + (Suc k - 1)) url = OtherException
            \<longrightarrow> fst (fetch_attempts net url a b le w) = Inl Raised"
        using l4 unfolding idx eq by simp
    qed
  qed
qed

lemma backoff_take: "k \<le> 3 \<Longrightarrow> map (\<lambda>i. 1 * 2 ^ i) [0..<k - 1] = take (k - 1) [1, 2::nat]"
proof -
  assume "k \<le> 3"
  then have "k = 0 \<or> k = 1 \<or> k = 2 \<or> k = 3" by arith
  then show ?thesis by (auto simp: numeral_2_eq_2 numeral_3_eq_3)
qed

text \<open>
  C7: \<open>fetch_page\<close> sends between one and three requests for the page. Every request but the
  last met a failure that is retried (connection failure, timeout, 5xx, unparseable 2xx body),
  and was followed by a sleep: of 1 after the first, of 2 after the second. When the last
  request meets such a failure too it was the third, and \<open>fetch_page\<close> raises. A 2xx response
  with a parseable body is returned. A status that is neither 2xx nor 5xx raises at once:
  when it answers the first request, that request is the only one and nothing is slept.
  Three failures in a row give three requests, the sleeps 1 and 2, and an error.
\<close>

theorem fetch_page_retries:
  "(\<exists>k. 1 \<le> k \<and> k \<le> 3
      \<and> snd (fetch_page net url w)
          = w\<lparr>sent := sent w @ replicate k url, slept := slept w @ take (k - 1) [1, 2]\<rparr>
      \<and> (\<forall>i < k - 1. spec_retryable (net (length (sent w) + i) url))
      \<and> (spec_retryable (net (length (sent w) + (k - 1)) url)
            \<longrightarrow> k = 3 \<and> isl (fst (fetch_page net url w)))
      \<and> (\<forall>st d. net (length (sent w) + (k - 1)) url = Http st (Some d) \<and> 200 \<le> st \<and> st < 300
            \<longrightarrow> fst (fetch_page net url w) = Inr d)
      \<and> (\<forall>st body. net (length (sent w) + (k - 1)) url = Http st body
              \<and> \<not> (200 \<le> st \<and> st < 300) \<and> \<not> (500 \<le> st \<and> st < 600)
            \<longrightarrow> fst (fetch_page net url w) = Inl (HttpError st)))
   \<and> (\<forall>st body. net (length (sent w)) url = Http st body
          \<and> \<not> (200 \<le> st \<and> st < 300) \<and> \<not> (500 \<le> st \<and> st < 600)
        \<longrightarrow> fetch_page net url w = (Inl (HttpError st), w\<lparr>sent := sent w @ [url]\<rparr>))
   \<and> (spec_retryable (net (length (sent w)) url)
        \<and> spec_retryable (net (length (sent w) + 1) url)
        \<and> spec_retryable (net (length (sent w) + 2) url)
        \<longrightarrow> isl (fst (fetch_page net url w))
          \<and> snd (fetch_page net url w) = w\<lparr>sent := sent w @ [url, url, url], slept := slept w @ [1, 2]\<rparr>)"
proof -
  let ?n = "length (sent w)"
  let ?R = "fetch_page net url w"
  have p: "(1::int) \<le> 1" "(1::int) \<le> 3" by simp_all
  note c = fetch_attempts_char [where a = 1 and net = net and url = url and b = 1 and le = None and w = w,
      OF p, folded fetch_page_def]
  from c obtain k where k: "1 \<le> k" "int k \<le> 4 - 1"
    and s0: "snd ?R = w\<lparr>sent := sent w @ replicate k url, slept := slept w @ map (\<lambda>i. 1 * 2 ^ i) [0..<k - 1]\<rparr>"
    and r: "\<forall>i < k - 1. spec_retryable (net (?n + i) url)"
    and l1: "spec_retryable (net (?n + (k - 1)) url) \<longrightarrow> 1 + int k - 1 = 3 \<and> isl (fst ?R)"
    and l2: "\<forall>st d. net (?n + (k - 1)) url = Http st (Some d) \<and> 200 \<le> st \<and> st < 300 \<longrightarrow> fst ?R = Inr d"
    and l3: "\<forall>st body. net (?n + (k - 1)) url = Http st body
              \<and> \<not> (200 \<le> st \<and> st < 300) \<and> \<not> (500 \<le> st \<and> st < 600) \<longrightarrow> fst ?R = Inl (HttpError st)"
    by blast
  from k(2) have k3: "k \<le> 3" by simp
  from s0 backoff_take [OF k3]
  have s: "snd ?R = w\<lparr>sent := sent w @ replicate k url, slept := slept w @ take (k - 1) [1, 2]\<rparr>"
    by simp
  from l1 have l1': "spec_retryable (net (?n + (k - 1)) url) \<longrightarrow> k = 3 \<and> isl (fst ?R)"
    by auto
  have A: "\<exists>k. 1 \<le> k \<and> k \<le> 3
      \<and> snd ?R = w\<lparr>sent := sent w @ replicate k url, slept := slept w @ take (k - 1) [1, 2]\<rparr>
      \<and> (\<forall>i < k - 1. spec_retryable (net (?n + i) url))
      \<and> (spec_retryable (net (?n + (k - 1)) url) \<longrightarrow> k = 3 \<and> isl (fst ?R))
      \<and> (\<forall>st d. net (?n + (k - 1)) url = Http st (Some d) \<and> 200 \<le> st \<and> st < 300 \<longrightarrow> fst ?R = Inr d)
      \<and> (\<forall>st body. net (?n + (k - 1)) url = Http st body
              \<and> \<not> (200 \<le> st \<and> st < 300) \<and> \<not> (500 \<le> st \<and> st < 600)
            \<longrightarrow> fst ?R = Inl (HttpError st))"
    using k(1) k3 s r l1' l2 l3 by blast
  have B: "?R = (Inl (HttpError st), w\<lparr>sent := sent w @ [url]\<rparr>)"
    if h: "net ?n url = Http st body" "\<not> (200 \<le> st \<and> st < 300)" "\<not> (500 \<le> st \<and> st < 600)"
    for st body
  proof -
    from h have nr: "\<not> spec_retryable (net ?n url)"
      by (auto simp: spec_retryable_def)
    have "k = 1"
    proof (rule ccontr)
      assume "k \<noteq> 1"
      with k(1) have "0 < k - 1" by simp
      with r have "spec_retryable (net (?n + 0) url)" by blast
      with nr show False by simp
    qed
    with s l3 h have "snd ?R = w\<lparr>sent := sent w @ [url]\<rparr>" "fst ?R = Inl (HttpError st)"
      by auto
    then show ?thesis by (simp add: prod_eq_iff)
  qed
  have C: "isl (fst ?R) \<and> snd ?R = w\<lparr>sent := sent w @ [url, url, url], slept := slept w @ [1, 2]\<rparr>"
    if h: "spec_retryable (net ?n url)" "spec_retryable (net (?n + 1) url)" "spec_retryable (net (?n + 2) url)"
  proof -
    from k(1) k3 have "k = 1 \<or> k = 2 \<or> k = 3" by arith
    with h have "spec_retryable (net (?n + (k - 1)) url)" by auto
    with l1' have "k = 3" "isl (fst ?R)" by simp_all
    with s show ?thesis by (simp add: numeral_3_eq_3)
  qed
  from A B C show ?thesis by blast
qed

text \<open>C7 at a network that answers 404, and at one that times out, answers 503, then sends an unparseable body.\<close>

theorem fetch_page_retries_witness:
  "fetch_page (\<lambda>n url. Http 404 None) (u ''x'') world0 = (Inl (HttpError 404), world0\<lparr>sent := [u ''x'']\<rparr>)
   \<and> isl (fst (fetch_page (\<lambda>n url. if n = 0 then Timeout else if n = 1 then Http 503 None else Http 200 None)
                 (u ''x'') world0))
   \<and> snd (fetch_page (\<lambda>n url. if n = 0 then Timeout else if n = 1 then Http 503 None else Http 200 None)
            (u ''x'') world0)
       = world0\<lparr>sent := [u ''x'', u ''x'', u ''x''], slept := [1, 2]\<rparr>"
proof -
  let ?net = "\<lambda>(n::nat) (url::ustring). if n = 0 then Timeout else if n = 1 then Http 503 None else Http 200 None"
  have e: "sent world0 = []" "slept world0 = []" by (simp_all add: world0_def)
  have a: "fetch_page (\<lambda>n url. Http 404 None) (u ''x'') world0 = (Inl (HttpError 404), world0\<lparr>sent := [u ''x'']\<rparr>)"
    using fetch_page_retries [of "\<lambda>n url. Http 404 None" "u ''x''" world0] e by simp
  have r: "spec_retryable (?net (length (sent world0)) (u ''x''))"
    "spec_retryable (?net (length (sent world0) + 1) (u ''x''))"
    "spec_retryable (?net (length (sent world0) + 2) (u ''x''))"
    by (simp_all add: spec_retryable_def e)
  from fetch_page_retries [of ?net "u ''x''" world0] r
  have "isl (fst (fetch_page ?net (u ''x'') world0))
      \<and> snd (fetch_page ?net (u ''x'') world0)
         = world0\<lparr>sent := sent world0 @ [u ''x'', u ''x'', u ''x''], slept := slept world0 @ [1, 2]\<rparr>"
    by blast
  with a e show ?thesis by simp
qed

section \<open>Properties of the Fetcher's and the Composer's main\<close>

text \<open>\<open>fetch_page\<close> touches the requests and the sleeps only.\<close>

lemma fetch_page_frame:
  "\<exists>k. 1 \<le> k \<and> k \<le> 3
     \<and> snd (fetch_page net url w) = w\<lparr>sent := sent w @ replicate k url, slept := slept w @ take (k - 1) [1, 2]\<rparr>"
proof -
  have p: "(1::int) \<le> 1" "(1::int) \<le> 3" by simp_all
  note c = fetch_attempts_char [where a = 1 and net = net and url = url and b = 1 and le = None and w = w,
      OF p, folded fetch_page_def]
  from c obtain k where k: "1 \<le> k" "int k \<le> 4 - 1"
    and s0: "snd (fetch_page net url w) = w\<lparr>sent := sent w @ replicate k url, slept := slept w @ map (\<lambda>i. 1 * 2 ^ i) [0..<k - 1]\<rparr>"
    by blast
  from k(2) have k3: "k \<le> 3" by simp
  with s0 backoff_take [OF k3] k(1) show ?thesis by auto
qed

lemma fetch_page_keeps:
  assumes "fetch_page net url w = (res, w1)"
  shows "printed w1 = printed w" and "errors w1 = errors w" and "files w1 = files w"
proof -
  from fetch_page_frame [of net url w] assms
  obtain k where "w1 = w\<lparr>sent := sent w @ replicate k url, slept := slept w @ take (k - 1) [1, 2]\<rparr>"
    by auto
  then show "printed w1 = printed w" and "errors w1 = errors w" and "files w1 = files w"
    by simp_all
qed

text \<open>Neither page loop writes a file, and the only code a loop returns with is 3.\<close>

lemma pages_for_result:
  "pages_for net api_key p total_pages all_rows w = (res, w')
     \<Longrightarrow> files w' = files w \<and> (\<forall>c. res = Inl c \<longrightarrow> c = 3)"
proof (induction net api_key p total_pages all_rows w arbitrary: res w' rule: pages_for.induct)
  case (1 net api_key p total_pages all_rows w)
  let ?url = "build_url api_key ((p - 1) * PAGE_SIZE + 1) (p * PAGE_SIZE)"
  show ?case
  proof (cases "p \<ge> total_pages + 1")
    case True
    with "1.prems" show ?thesis
      by (auto simp: pages_for.simps [of net api_key p])
  next
    case False
    obtain r w1 where f: "fetch_page net ?url w = (r, w1)" by (cases "fetch_page net ?url w")
    note k = fetch_page_keeps [OF f]
    show ?thesis
    proof (cases r)
      case (Inl e)
      with "1.prems" False f k show ?thesis
        by (auto simp: pages_for.simps [of net api_key p] Let_def)
    next
      case (Inr d)
      let ?rows = "snd (extract_payload d)"
      let ?w2 = "w1\<lparr>printed := printed w1 @ [FetchedPage ((p - 1) * PAGE_SIZE + 1) (p * PAGE_SIZE) (length ?rows)]\<rparr>"
      show ?thesis
      proof (cases "?rows = []")
        case True
        with "1.prems" False f k Inr show ?thesis
          by (auto simp: pages_for.simps [of net api_key p] Let_def)
      next
        case ne: False
        from "1.prems" False f Inr ne
        have "pages_for net api_key (p + 1) total_pages (all_rows @ ?rows) ?w2 = (res, w')"
          by (simp add: pages_for.simps [of net api_key p] Let_def)
        from "1.IH" [OF False refl refl refl f [symmetric] Inr refl refl ne this] k
        show ?thesis by simp
      qed
    qed
  qed
qed


lemma write_outputs_result:
  "fst (write_outputs rows w) = 0
   \<and> map fst (files (snd (write_outputs rows w))) = map fst (files w) @
       [u ''seoul_education_all.json'', u ''seoul_education_v12.json'',
        u ''seoul_education_v123.json'', u ''seoul_education_summary.csv'']
   \<and> errors (snd (write_outputs rows w)) = errors w
   \<and> sent (snd (write_outputs rows w)) = sent w"
  by (simp add: write_outputs_def Let_def write_json_def write_csv_summary_def split: prod.splits)











lemma main_fetch_first_ok:
  assumes "strip (case load_env_from_dotenv dotenv environ (u ''SEOUL_API_KEY'') of None \<Rightarrow> [] | Some v \<Rightarrow> v) = k"
    and "k \<noteq> []"
    and "fetch_page net (build_url k 1 PAGE_SIZE) world0 = (Inr d, w1)"
  shows "main_fetch dotenv environ net =
     (case (if fst (extract_payload d) > 0
            then Some (case loop_entry d w1 of (p, all_rows, w) \<Rightarrow>
                   pages_for net k p ((fst (extract_payload d) + PAGE_SIZE - 1) div PAGE_SIZE) all_rows w)
            else (case loop_entry d w1 of (p, all_rows, w) \<Rightarrow> pages_until_empty net k p all_rows w)) of
        None \<Rightarrow> None
      | Some (Inl code, w4) \<Rightarrow> Some (code, w4)
      | Some (Inr rows, w4) \<Rightarrow> Some (write_outputs rows w4))"
  using assms by (simp add: main_fetch_def loop_entry_def Let_def split: prod.splits)










text \<open>What the loops and the output stage add to the printed lines and to the requests.\<close>

lemma write_outputs_printed:
  "\<exists>c1 c2 c3. printed (snd (write_outputs rows w)) = printed w @ [FinalCounts c1 c2 c3]"
  by (simp add: write_outputs_def Let_def write_json_def write_csv_summary_def split: prod.splits)

lemma fetch_page_sent:
  assumes "fetch_page net url w = (r, w1)"
  shows "\<exists>a \<in> {1, 2, 3}. sent w1 = sent w @ replicate a url"
proof -
  from fetch_page_frame [of net url w] assms
  obtain k where "1 \<le> k" "k \<le> 3" "w1 = w\<lparr>sent := sent w @ replicate k url, slept := slept w @ take (k - 1) [1, 2]\<rparr>"
    by auto
  then have "k \<in> {1, 2, 3}" "sent w1 = sent w @ replicate k url" by auto
  then show ?thesis by blast
qed

lemma pages_for_done:
  "total_pages + 1 \<le> p \<Longrightarrow> pages_for net api_key p total_pages all_rows w = (Inr all_rows, w)"
  by (simp add: pages_for.simps [of net api_key p])

lemma pages_for_turn:
  assumes "p \<le> total_pages"
    and "fetch_page net (build_url api_key ((p - 1) * PAGE_SIZE + 1) (p * PAGE_SIZE)) w = (r, w1)"
  shows "pages_for net api_key p total_pages all_rows w =
     (case r of
        Inl e \<Rightarrow> (Inl 3, w1\<lparr>errors := errors w1 @ [FetchFailed ((p - 1) * PAGE_SIZE + 1) (p * PAGE_SIZE) e]\<rparr>)
      | Inr d \<Rightarrow>
          if snd (extract_payload d) = []
          then (Inr all_rows, w1\<lparr>printed := printed w1 @ [FetchedPage ((p - 1) * PAGE_SIZE + 1) (p * PAGE_SIZE) 0]\<rparr>)
          else pages_for net api_key (p + 1) total_pages (all_rows @ snd (extract_payload d))
                 (w1\<lparr>printed := printed w1 @
                    [FetchedPage ((p - 1) * PAGE_SIZE + 1) (p * PAGE_SIZE) (length (snd (extract_payload d)))]\<rparr>))"
  using assms by (simp add: pages_for.simps [of net api_key p] Let_def split: sum.splits)

text \<open>
  The bounded loop over the pages 2 and 3: it returns 3, or some page came back empty, or both
  pages were fetched, for the ranges 1001 to 2000 and 2001 to 3000.
\<close>

lemma pages_for_2_3:
  assumes pf: "pages_for net k 2 3 rows1 w3 = (res, w')"
  shows "res = Inl 3
     \<or> (\<exists>s t. FetchedPage s t 0 \<in> set (printed w'))
     \<or> (\<exists>rows n2 n3 b c. res = Inr rows
           \<and> printed w' = printed w3 @ [FetchedPage 1001 2000 n2, FetchedPage 2001 3000 n3]
           \<and> b \<in> {1, 2, 3} \<and> c \<in> {1, 2, 3}
           \<and> sent w' = sent w3 @ replicate b (build_url k 1001 2000) @ replicate c (build_url k 2001 3000))"
proof -
  let ?u2 = "build_url k 1001 2000" and ?u3 = "build_url k 2001 3000"
  have r2: "((2::int) - 1) * PAGE_SIZE + 1 = 1001" "(2::int) * PAGE_SIZE = 2000"
    and r3: "((2::int) + 1 - 1) * PAGE_SIZE + 1 = 2001" "((2::int) + 1) * PAGE_SIZE = 3000"
    by (simp_all add: PAGE_SIZE_def)
  obtain x2 w4 where f2: "fetch_page net ?u2 w3 = (x2, w4)" by (cases "fetch_page net ?u2 w3")
  from fetch_page_sent [OF f2] obtain b where b: "b \<in> {1, 2, 3}" "sent w4 = sent w3 @ replicate b ?u2"
    by blast
  note k4 = fetch_page_keeps [OF f2]
  have t2: "pages_for net k 2 3 rows1 w3 =
     (case x2 of
        Inl e \<Rightarrow> (Inl 3, w4\<lparr>errors := errors w4 @ [FetchFailed 1001 2000 e]\<rparr>)
      | Inr d \<Rightarrow>
          if snd (extract_payload d) = []
          then (Inr rows1, w4\<lparr>printed := printed w4 @ [FetchedPage 1001 2000 0]\<rparr>)
          else pages_for net k (2 + 1) 3 (rows1 @ snd (extract_payload d))
                 (w4\<lparr>printed := printed w4 @ [FetchedPage 1001 2000 (length (snd (extract_payload d)))]\<rparr>))"
    using pages_for_turn [of 2 3 net k w3 x2 w4 rows1] f2 by (simp only: r2)
  show ?thesis
  proof (cases x2)
    case (Inl e)
    with t2 pf show ?thesis by simp
  next
    case (Inr d2)
    let ?rows2 = "snd (extract_payload d2)"
    show ?thesis
    proof (cases "?rows2 = []")
      case True
      with t2 pf Inr have "printed w' = printed w4 @ [FetchedPage 1001 2000 0]" by auto
      then have "FetchedPage 1001 2000 0 \<in> set (printed w')" by simp
      then show ?thesis by blast
    next
      case ne2: False
      let ?w5 = "w4\<lparr>printed := printed w4 @ [FetchedPage 1001 2000 (length ?rows2)]\<rparr>"
      from t2 pf Inr ne2 have pf3: "pages_for net k (2 + 1) 3 (rows1 @ ?rows2) ?w5 = (res, w')"
        by simp
      obtain x3 w6 where f3: "fetch_page net ?u3 ?w5 = (x3, w6)" by (cases "fetch_page net ?u3 ?w5")
      from fetch_page_sent [OF f3] obtain c where c: "c \<in> {1, 2, 3}" "sent w6 = sent ?w5 @ replicate c ?u3"
        by blast
      note k6 = fetch_page_keeps [OF f3]
      have t3: "pages_for net k (2 + 1) 3 (rows1 @ ?rows2) ?w5 =
        (case x3 of
           Inl e \<Rightarrow> (Inl 3, w6\<lparr>errors := errors w6 @ [FetchFailed 2001 3000 e]\<rparr>)
         | Inr d \<Rightarrow>
             if snd (extract_payload d) = []
             then (Inr (rows1 @ ?rows2), w6\<lparr>printed := printed w6 @ [FetchedPage 2001 3000 0]\<rparr>)
             else pages_for net k (2 + 1 + 1) 3 ((rows1 @ ?rows2) @ snd (extract_payload d))
                    (w6\<lparr>printed := printed w6 @ [FetchedPage 2001 3000 (length (snd (extract_payload d)))]\<rparr>))"
        using pages_for_turn [of "2 + 1" 3 net k ?w5 x3 w6 "rows1 @ ?rows2"] f3 by (simp only: r3)
      show ?thesis
      proof (cases x3)
        case (Inl e)
        with t3 pf3 show ?thesis by simp
      next
        case (Inr d3)
        let ?rows3 = "snd (extract_payload d3)"
        show ?thesis
        proof (cases "?rows3 = []")
          case True
          with t3 pf3 Inr have "printed w' = printed w6 @ [FetchedPage 2001 3000 0]" by auto
          then have "FetchedPage 2001 3000 0 \<in> set (printed w')" by simp
          then show ?thesis by blast
        next
          case ne3: False
          let ?w7 = "w6\<lparr>printed := printed w6 @ [FetchedPage 2001 3000 (length ?rows3)]\<rparr>"
          from t3 pf3 Inr ne3
          have "pages_for net k (2 + 1 + 1) 3 ((rows1 @ ?rows2) @ ?rows3) ?w7 = (res, w')" by simp
          then have e: "res = Inr ((rows1 @ ?rows2) @ ?rows3)" "w' = ?w7"
            by (simp_all add: pages_for_done)
          from e(2) k6 k4 have "printed w' = printed w3 @ [FetchedPage 1001 2000 (length ?rows2), FetchedPage 2001 3000 (length ?rows3)]"
            by simp
          moreover from e(2) c(2) b(2) have "sent w' = sent w3 @ replicate b ?u2 @ replicate c ?u3"
            by simp
          ultimately show ?thesis using e(1) b(1) c(1) by blast
        qed
      qed
    qed
  qed
qed

lemma run_resultI:
  assumes "m = Some (code, w)" and "P code w \<Longrightarrow> Q w"
  shows "\<exists>code w. m = Some (code, w) \<and> (P code w \<longrightarrow> Q w)"
  using assms by blast

text \<open>
  C3, amended: when the first page is fetched and declares the total count 2500, the run
  returns; and if it returns 0 and no \<open>Fetched page\<close> line reports zero rows, then exactly three
  pages were fetched, with the ranges 1 to 1000, 1001 to 2000 and 2001 to 3000 (the end of
  the last range is the page boundary 3000, not the total count), and the requests sent are
  those for these three URLs in this order, each one to three times.
\<close>

theorem three_pages_for_2500:
  "(let k = strip (case load_env_from_dotenv dotenv environ (u ''SEOUL_API_KEY'') of None \<Rightarrow> [] | Some v \<Rightarrow> v)
    in k \<noteq> [] \<and> fetch_page net (build_url k 1 1000) world0 = (Inr d, w1)
       \<and> fst (extract_payload d) = 2500
       \<longrightarrow> (\<exists>code w. main_fetch dotenv environ net = Some (code, w)
             \<and> (code = 0 \<and> (\<forall>s t n. FetchedPage s t n \<in> set (printed w) \<longrightarrow> 0 < n)
                \<longrightarrow> (\<exists>n1 n2 n3 c1 c2 c3. printed w =
                         [Discovered 2500, FetchedPage 1 1000 n1, FetchedPage 1001 2000 n2,
                          FetchedPage 2001 3000 n3, FinalCounts c1 c2 c3])
                  \<and> (\<exists>a \<in> {1, 2, 3}. \<exists>b \<in> {1, 2, 3}. \<exists>c \<in> {1, 2, 3}. sent w =
                         replicate a (build_url k 1 1000) @ replicate b (build_url k 1001 2000)
                         @ replicate c (build_url k 2001 3000)))))"
proof -
  define k where "k = strip (case load_env_from_dotenv dotenv environ (u ''SEOUL_API_KEY'') of None \<Rightarrow> [] | Some v \<Rightarrow> v)"
  note kd = k_def [symmetric]
  have "\<exists>code w. main_fetch dotenv environ net = Some (code, w)
             \<and> (code = 0 \<and> (\<forall>s t n. FetchedPage s t n \<in> set (printed w) \<longrightarrow> 0 < n)
                \<longrightarrow> (\<exists>n1 n2 n3 c1 c2 c3. printed w =
                         [Discovered 2500, FetchedPage 1 1000 n1, FetchedPage 1001 2000 n2,
                          FetchedPage 2001 3000 n3, FinalCounts c1 c2 c3])
                  \<and> (\<exists>a \<in> {1, 2, 3}. \<exists>b \<in> {1, 2, 3}. \<exists>c \<in> {1, 2, 3}. sent w =
                         replicate a (build_url k 1 1000) @ replicate b (build_url k 1001 2000)
                         @ replicate c (build_url k 2001 3000)))"
    if ne: "k \<noteq> []" and f1: "fetch_page net (build_url k 1 1000) world0 = (Inr d, w1)"
      and tot: "fst (extract_payload d) = 2500"
  proof -
    let ?rows1 = "snd (extract_payload d)"
    let ?w3 = "w1\<lparr>printed := printed w1 @ [Discovered 2500, FetchedPage 1 1000 (length ?rows1)]\<rparr>"
    from f1 have f1': "fetch_page net (build_url k 1 PAGE_SIZE) world0 = (Inr d, w1)"
      by (simp add: PAGE_SIZE_def)
    have sw0: "sent world0 = []" by (simp add: world0_def)
    from fetch_page_sent [OF f1] obtain a where a0: "a \<in> {1, 2, 3}"
      "sent w1 = sent world0 @ replicate a (build_url k 1 1000)"
      by blast
    from a0(2) sw0 have a2: "sent w1 = replicate a (build_url k 1 1000)" by simp
    note a = a0(1) a2
    from fetch_page_keeps(1) [OF f1] have p1: "printed w1 = []" by (simp add: world0_def)
    have le: "loop_entry d w1 = (2, ?rows1, ?w3)"
      using tot by (simp add: loop_entry_def PAGE_SIZE_def case_prod_beta)
    have tp: "(fst (extract_payload d) + PAGE_SIZE - 1) div PAGE_SIZE = 3"
      using tot by (simp add: PAGE_SIZE_def)
    obtain res w4 where pf: "pages_for net k 2 3 ?rows1 ?w3 = (res, w4)"
      by (cases "pages_for net k 2 3 ?rows1 ?w3")
    from main_fetch_first_ok [OF kd ne f1'] tot le tp pf
    have m: "main_fetch dotenv environ net =
        (case res of Inl code \<Rightarrow> Some (code, w4) | Inr rows \<Rightarrow> Some (write_outputs rows w4))"
      by simp
    from pages_for_result [OF pf] have c3: "\<forall>c. res = Inl c \<longrightarrow> c = 3" by simp
    show ?thesis
    proof (cases res)
      case (Inl c)
      with c3 m have m3: "main_fetch dotenv environ net = Some (3, w4)" by simp
      show ?thesis
      proof (rule run_resultI [OF m3])
        assume "(3::int) = 0 \<and> (\<forall>s t n. FetchedPage s t n \<in> set (printed w4) \<longrightarrow> 0 < n)"
        then have False by simp
        then show "(\<exists>n1 n2 n3 c1 c2 c3. printed w4 =
                         [Discovered 2500, FetchedPage 1 1000 n1, FetchedPage 1001 2000 n2,
                          FetchedPage 2001 3000 n3, FinalCounts c1 c2 c3])
                  \<and> (\<exists>a \<in> {1, 2, 3}. \<exists>b \<in> {1, 2, 3}. \<exists>c \<in> {1, 2, 3}. sent w4 =
                         replicate a (build_url k 1 1000) @ replicate b (build_url k 1001 2000)
                         @ replicate c (build_url k 2001 3000))" ..
      qed
    next
      case (Inr rows)
      obtain w5 where wo: "write_outputs rows w4 = (0, w5)"
        using write_outputs_result [of rows w4] by (cases "write_outputs rows w4") auto
      from write_outputs_printed [of rows w4] wo obtain c1 c2 c3
        where p5: "printed w5 = printed w4 @ [FinalCounts c1 c2 c3]" by auto
      from write_outputs_result [of rows w4] wo have s5: "sent w5 = sent w4" by simp
      from m Inr wo have m5: "main_fetch dotenv environ net = Some (0, w5)" by simp
      from Inr have "res \<noteq> Inl 3" by simp
      with pages_for_2_3 [OF pf]
      consider (empty) s t where "FetchedPage s t 0 \<in> set (printed w4)"
        | (full) n2 n3 b c where "printed w4 = printed ?w3 @ [FetchedPage 1001 2000 n2, FetchedPage 2001 3000 n3]"
            "b \<in> {1, 2, 3}" "c \<in> {1, 2, 3}"
            "sent w4 = sent ?w3 @ replicate b (build_url k 1001 2000) @ replicate c (build_url k 2001 3000)"
        by blast
      then show ?thesis
      proof cases
        case empty
        with p5 have "FetchedPage s t 0 \<in> set (printed w5)" by simp
        then have neg: "\<not> (\<forall>s t n. FetchedPage s t n \<in> set (printed w5) \<longrightarrow> 0 < n)" by blast
        show ?thesis
        proof (rule run_resultI [OF m5])
          assume "0 = 0 \<and> (\<forall>s t n. FetchedPage s t n \<in> set (printed w5) \<longrightarrow> 0 < n)"
          with neg have False by blast
          then show "(\<exists>n1 n2 n3 c1 c2 c3. printed w5 =
                         [Discovered 2500, FetchedPage 1 1000 n1, FetchedPage 1001 2000 n2,
                          FetchedPage 2001 3000 n3, FinalCounts c1 c2 c3])
                  \<and> (\<exists>a \<in> {1, 2, 3}. \<exists>b \<in> {1, 2, 3}. \<exists>c \<in> {1, 2, 3}. sent w5 =
                         replicate a (build_url k 1 1000) @ replicate b (build_url k 1001 2000)
                         @ replicate c (build_url k 2001 3000))" ..
        qed
      next
        case full
        from full(1) p5 p1 have "printed w5 =
            [Discovered 2500, FetchedPage 1 1000 (length ?rows1), FetchedPage 1001 2000 n2,
             FetchedPage 2001 3000 n3, FinalCounts c1 c2 c3]" by simp
        moreover from full(4) s5 a(2) have "sent w5 =
            replicate a (build_url k 1 1000) @ replicate b (build_url k 1001 2000)
            @ replicate c (build_url k 2001 3000)" by simp
        ultimately have "(\<exists>n1 n2 n3 c1 c2 c3. printed w5 =
                         [Discovered 2500, FetchedPage 1 1000 n1, FetchedPage 1001 2000 n2,
                          FetchedPage 2001 3000 n3, FinalCounts c1 c2 c3])
                  \<and> (\<exists>a \<in> {1, 2, 3}. \<exists>b \<in> {1, 2, 3}. \<exists>c \<in> {1, 2, 3}. sent w5 =
                         replicate a (build_url k 1 1000) @ replicate b (build_url k 1001 2000)
                         @ replicate c (build_url k 2001 3000))"
          using a(1) full(2,3) by blast
        then show ?thesis
          by (intro run_resultI [OF m5])
      qed
    qed
  qed
  then show ?thesis
    unfolding Let_def kd by (intro impI) (elim conjE)
qed

text \<open>A run against a server that always answers 200 with the total count 2500 and one row.\<close>

lemma key_k:
  "strip (case load_env_from_dotenv None [u ''SEOUL_API_KEY'' \<mapsto> u ''k''] (u ''SEOUL_API_KEY'') of
            None \<Rightarrow> [] | Some v \<Rightarrow> v) = u ''k''"
  by (simp add: load_env_from_dotenv_def strip_def is_space_def u_def)

lemma fetch_page_always_ok:
  "fetch_page (\<lambda>n url. Http 200 (Some d)) url w = (Inr d, w\<lparr>sent := sent w @ [url]\<rparr>)"
  by (simp add: fetch_page_def fetch_attempts.simps [of _ _ 1] MAX_RETRIES_def)


lemma urls_k:
  "build_url (u ''k'') 1 1000 = u ''http://openapi.seoul.go.kr:8088/k/json/ListPublicReservationEducation/1/1000/''"
  "build_url (u ''k'') 1001 2000 = u ''http://openapi.seoul.go.kr:8088/k/json/ListPublicReservationEducation/1001/2000/''"
  "build_url (u ''k'') 2001 3000 = u ''http://openapi.seoul.go.kr:8088/k/json/ListPublicReservationEducation/2001/3000/''"
  "build_url (u ''k'') 2001 2500 = u ''http://openapi.seoul.go.kr:8088/k/json/ListPublicReservationEducation/2001/2500/''"
  by (simp_all add: build_url_def str_int_def digits_of.simps u_def)

lemma run_2500:
  "\<exists>w c1 c2 c3. main_fetch None [u ''SEOUL_API_KEY'' \<mapsto> u ''k'']
       (\<lambda>n url. Http 200 (Some (Listing (Some 2500) (Some [Dict Map.empty])))) = Some (0, w)
     \<and> sent w = [build_url (u ''k'') 1 1000, build_url (u ''k'') 1001 2000, build_url (u ''k'') 2001 3000]
     \<and> printed w = [Discovered 2500, FetchedPage 1 1000 1, FetchedPage 1001 2000 1,
                    FetchedPage 2001 3000 1, FinalCounts c1 c2 c3]"
proof -
  let ?d = "Listing (Some 2500) (Some [Dict Map.empty])"
  let ?net = "\<lambda>(n::nat) (url::ustring). Http 200 (Some ?d)"
  let ?k = "u ''k''"
  have ne: "?k \<noteq> []" by (simp add: u_def)
  have ep: "extract_payload ?d = (2500, [Map.empty])" by simp
  let ?w1 = "world0\<lparr>sent := sent world0 @ [build_url ?k 1 PAGE_SIZE]\<rparr>"
  have f1: "fetch_page ?net (build_url ?k 1 PAGE_SIZE) world0 = (Inr ?d, ?w1)"
    by (rule fetch_page_always_ok)
  let ?w3 = "?w1\<lparr>printed := printed ?w1 @ [Discovered 2500, FetchedPage 1 PAGE_SIZE 1]\<rparr>"
  have le: "loop_entry ?d ?w1 = (2, [Map.empty], ?w3)"
    by (simp add: loop_entry_def)
  let ?w7 = "world0\<lparr>sent := [build_url ?k 1 1000, build_url ?k 1001 2000, build_url ?k 2001 3000],
      printed := [Discovered 2500, FetchedPage 1 1000 1, FetchedPage 1001 2000 1, FetchedPage 2001 3000 1]\<rparr>"
  have pf: "pages_for ?net ?k 2 3 [Map.empty] ?w3 = (Inr [Map.empty, Map.empty, Map.empty], ?w7)"
    by (simp add: pages_for.simps [of _ _ 2] pages_for.simps [of _ _ 3] pages_for.simps [of _ _ 4]
        fetch_page_always_ok PAGE_SIZE_def world0_def)
  have m: "main_fetch None [u ''SEOUL_API_KEY'' \<mapsto> ?k] ?net
      = Some (write_outputs [Map.empty, Map.empty, Map.empty] ?w7)"
    using main_fetch_first_ok [OF key_k ne f1] le pf by (simp add: PAGE_SIZE_def)
  obtain w where wo: "write_outputs [Map.empty, Map.empty, Map.empty] ?w7 = (0, w)"
    using write_outputs_result [of "[Map.empty, Map.empty, Map.empty]" ?w7]
    by (cases "write_outputs [Map.empty, Map.empty, Map.empty] ?w7") auto
  from write_outputs_printed [of "[Map.empty, Map.empty, Map.empty]" ?w7] wo
  obtain c1 c2 c3 where "printed w = printed ?w7 @ [FinalCounts c1 c2 c3]" by auto
  then have p: "printed w = [Discovered 2500, FetchedPage 1 1000 1, FetchedPage 1001 2000 1,
                    FetchedPage 2001 3000 1, FinalCounts c1 c2 c3]" by simp
  from write_outputs_result [of "[Map.empty, Map.empty, Map.empty]" ?w7] wo
  have s: "sent w = [build_url ?k 1 1000, build_url ?k 1001 2000, build_url ?k 2001 3000]" by simp
  from m wo p s show ?thesis by auto
qed

text \<open>
  C3 as stated fails: with the total count 2500 and no empty page, the third request asks for
  the range 2001 to 3000; the URL for 2001 to 2500 is a different one and is never requested.
\<close>

theorem third_page_is_2001_to_3000:
  "map_option (\<lambda>r. (fst r, sent (snd r)))
     (main_fetch None [u ''SEOUL_API_KEY'' \<mapsto> u ''k'']
        (\<lambda>n url. Http 200 (Some (Listing (Some 2500) (Some [Dict Map.empty])))))
   = Some (0, [u ''http://openapi.seoul.go.kr:8088/k/json/ListPublicReservationEducation/1/1000/'',
               u ''http://openapi.seoul.go.kr:8088/k/json/ListPublicReservationEducation/1001/2000/'',
               u ''http://openapi.seoul.go.kr:8088/k/json/ListPublicReservationEducation/2001/3000/''])
   \<and> build_url (u ''k'') 2001 2500
       \<noteq> u ''http://openapi.seoul.go.kr:8088/k/json/ListPublicReservationEducation/2001/3000/''"
proof -
  from run_2500 urls_k(1-3) have "map_option (\<lambda>r. (fst r, sent (snd r)))
     (main_fetch None [u ''SEOUL_API_KEY'' \<mapsto> u ''k'']
        (\<lambda>n url. Http 200 (Some (Listing (Some 2500) (Some [Dict Map.empty])))))
   = Some (0, [u ''http://openapi.seoul.go.kr:8088/k/json/ListPublicReservationEducation/1/1000/'',
               u ''http://openapi.seoul.go.kr:8088/k/json/ListPublicReservationEducation/1001/2000/'',
               u ''http://openapi.seoul.go.kr:8088/k/json/ListPublicReservationEducation/2001/3000/''])"
    by auto
  moreover have "build_url (u ''k'') 2001 2500
       \<noteq> u ''http://openapi.seoul.go.kr:8088/k/json/ListPublicReservationEducation/2001/3000/''"
    by (simp add: urls_k(4)) (simp add: u_def)
  ultimately show ?thesis ..
qed

text \<open>C3, amended, at the server that always answers 200 with the total count 2500 and one row.\<close>

theorem three_pages_for_2500_witness:
  "\<exists>n1 n2 n3 c1 c2 c3.
     map_option (\<lambda>r. printed (snd r))
       (main_fetch None [u ''SEOUL_API_KEY'' \<mapsto> u ''k'']
          (\<lambda>n url. Http 200 (Some (Listing (Some 2500) (Some [Dict Map.empty])))))
     = Some [Discovered 2500, FetchedPage 1 1000 n1, FetchedPage 1001 2000 n2,
             FetchedPage 2001 3000 n3, FinalCounts c1 c2 c3]"
proof -
  let ?d = "Listing (Some 2500) (Some [Dict Map.empty])"
  let ?net = "\<lambda>(n::nat) (url::ustring). Http 200 (Some ?d)"
  let ?env = "[u ''SEOUL_API_KEY'' \<mapsto> u ''k'']"
  let ?w1 = "world0\<lparr>sent := sent world0 @ [build_url (u ''k'') 1 1000]\<rparr>"
  have ne: "u ''k'' \<noteq> []" by (simp add: u_def)
  have f1: "fetch_page ?net (build_url (u ''k'') 1 1000) world0 = (Inr ?d, ?w1)"
    by (rule fetch_page_always_ok)
  have tot: "fst (extract_payload ?d) = 2500" by simp
  note t = three_pages_for_2500 [where dotenv = None and environ = ?env and net = ?net
      and d = ?d and ?w1.0 = ?w1, unfolded Let_def key_k]
  from t ne f1 tot obtain code w where m: "main_fetch None ?env ?net = Some (code, w)"
    and imp: "code = 0 \<and> (\<forall>s t n. FetchedPage s t n \<in> set (printed w) \<longrightarrow> 0 < n)
          \<longrightarrow> (\<exists>n1 n2 n3 c1 c2 c3. printed w =
                   [Discovered 2500, FetchedPage 1 1000 n1, FetchedPage 1001 2000 n2,
                    FetchedPage 2001 3000 n3, FinalCounts c1 c2 c3])
            \<and> (\<exists>a \<in> {1, 2, 3}. \<exists>b \<in> {1, 2, 3}. \<exists>c \<in> {1, 2, 3}. sent w =
                   replicate a (build_url (u ''k'') 1 1000) @ replicate b (build_url (u ''k'') 1001 2000)
                   @ replicate c (build_url (u ''k'') 2001 3000))"
    by blast
  from run_2500 obtain w' c1 c2 c3 where r: "main_fetch None ?env ?net = Some (0, w')"
    and p: "printed w' = [Discovered 2500, FetchedPage 1 1000 1, FetchedPage 1001 2000 1,
                    FetchedPage 2001 3000 1, FinalCounts c1 c2 c3]"
    by blast
  from m r have cw: "code = 0" "w = w'" by simp_all
  have pos: "\<forall>s t n. FetchedPage s t n \<in> set (printed w) \<longrightarrow> 0 < n"
    unfolding cw p by auto
  from imp cw(1) pos have "\<exists>n1 n2 n3 c1 c2 c3. printed w =
                   [Discovered 2500, FetchedPage 1 1000 n1, FetchedPage 1001 2000 n2,
                    FetchedPage 2001 3000 n3, FinalCounts c1 c2 c3]"
    by blast
  with m show ?thesis by simp
qed


end
